theory Spec2Isabelle
  imports Main "HOL-Library.Sublist" "HOL-Library.Monad_Syntax"
begin

section \<open>JavaScript strings and the string primitives the extension uses\<close>

text \<open>
  A JavaScript string is a sequence of UTF-16 code units. It is modelled as a
  \<^typ>\<open>string\<close>, one \<^typ>\<open>char\<close> per code unit, which covers every input whose code
  units are below 256. All prefixes, separators and patterns of the source are ASCII.
\<close>

text \<open>\<^verbatim>\<open>s.startsWith(p)\<close>\<close>

definition startsWith :: "string \<Rightarrow> string \<Rightarrow> bool" where
  "startsWith s p = prefix p s"

text \<open>\<^verbatim>\<open>s.includes(sub)\<close>: \<open>sub\<close> occurs at some position of \<open>s\<close>.\<close>

fun includesSub :: "string \<Rightarrow> string \<Rightarrow> bool" where
  "includesSub [] sub = (sub = [])"
| "includesSub (c # cs) sub = (prefix sub (c # cs) \<or> includesSub cs sub)"

text \<open>\<^verbatim>\<open>s.split("\n")\<close>: the empty string splits into one empty line.\<close>

definition pushChar :: "char \<Rightarrow> string list \<Rightarrow> string list" where
  "pushChar c ls = (c # hd ls) # tl ls"

fun split_nl :: "string \<Rightarrow> string list" where
  "split_nl [] = ['''']"
| "split_nl (c # cs) =
     (if c = CHR 0x0A then [] # split_nl cs else pushChar c (split_nl cs))"

text \<open>\<^verbatim>\<open>lines.join("\n")\<close>: the empty array joins to the empty string.\<close>

fun join_nl :: "string list \<Rightarrow> string" where
  "join_nl [] = []"
| "join_nl [l] = l"
| "join_nl (l # ls) = l @ CHR 0x0A # join_nl ls"

text \<open>
  White space as \<^verbatim>\<open>String.prototype.trim\<close> and the class \<^verbatim>\<open>\s\<close> see it, among the
  code units below 256: tab, line feed, vertical tab, form feed, carriage return,
  space and the no-break space.
\<close>

definition isSpace :: "char \<Rightarrow> bool" where
  "isSpace c = (c \<in> set [CHR 0x09, CHR 0x0A, CHR 0x0B, CHR 0x0C, CHR 0x0D, CHR 0x20, CHR 0xA0])"

definition trim :: "string \<Rightarrow> string" where
  "trim s = rev (dropWhile isSpace (rev (dropWhile isSpace s)))"

text \<open>The class \<^verbatim>\<open>\d\<close>.\<close>

definition isDigit :: "char \<Rightarrow> bool" where
  "isDigit c = (c \<in> set ''0123456789'')"

section \<open>JavaScript numbers\<close>

text \<open>
  A JavaScript number is an IEEE double. The numbers of this program are integers read
  from digit strings, counted up by one or reduced by a count, so a number is an integer
  that a double holds, or an infinity. \<open>digitsValue\<close> is the integer a match of \<^verbatim>\<open>\d+\<close>
  denotes.
\<close>

definition digitVal :: "char \<Rightarrow> int" where
  "digitVal c = of_char c - 48"

definition digitsValue :: "string \<Rightarrow> int" where
  "digitsValue ds = foldl (\<lambda>n c. 10 * n + digitVal c) 0 ds"

datatype jsnum = Num int | PosInf | NegInf

text \<open>The number of binary digits of a positive integer.\<close>

function bitlen :: "int \<Rightarrow> nat" where
  "bitlen n = (if n \<le> 0 then 0 else Suc (bitlen (n div 2)))"
  by pat_completeness auto
termination
  by (relation "measure nat") auto

declare bitlen.simps [simp del]

text \<open>
  The double nearest to a non-negative integer: integers below \<open>2^53\<close> are doubles; a
  larger one keeps its 53 leading binary digits, rounded to nearest and to even on a tie;
  \<open>None\<close> is the overflow to infinity.
\<close>

definition roundMagnitude :: "int \<Rightarrow> int option" where
  "roundMagnitude n =
     (if n < 2 ^ 53 then Some n
      else let e = bitlen n - 53; q = n div 2 ^ e; r = n mod 2 ^ e;
               m = (if 2 ^ e < 2 * r \<or> (2 * r = 2 ^ e \<and> odd q) then q + 1 else q) * 2 ^ e
           in if bitlen m \<le> 1024 then Some m else None)"

definition toNumber :: "int \<Rightarrow> jsnum" where
  "toNumber i =
     (if 0 \<le> i then (case roundMagnitude i of Some m \<Rightarrow> Num m | None \<Rightarrow> PosInf)
      else (case roundMagnitude (- i) of Some m \<Rightarrow> Num (- m) | None \<Rightarrow> NegInf))"

text \<open>\<^verbatim>\<open>parseInt\<close> on a match of \<^verbatim>\<open>\d+\<close>: the double nearest to the integer the digits denote.\<close>

definition parseInt :: "string \<Rightarrow> jsnum" where
  "parseInt ds = toNumber (digitsValue ds)"

text \<open>
  \<^verbatim>\<open>x++\<close> leaves in \<open>x\<close> the sum \<open>x + 1\<close> rounded to a double: at \<open>2^53\<close> that is \<open>2^53\<close>
  again.
\<close>

definition increment :: "jsnum \<Rightarrow> jsnum" where
  "increment x = (case x of Num v \<Rightarrow> toNumber (v + 1) | PosInf \<Rightarrow> PosInf | NegInf \<Rightarrow> NegInf)"

text \<open>
  \<^verbatim>\<open>x - skippedLines\<close>. The count \<open>skippedLines\<close> starts at 0 and goes up by one for a line
  of the input; a JavaScript string has fewer than \<open>2^53\<close> code units and an array fewer
  than \<open>2^32\<close> elements, so the count is exact and is kept as a natural number.
\<close>

definition minusCount :: "jsnum \<Rightarrow> nat \<Rightarrow> jsnum" where
  "minusCount x k =
     (case x of Num v \<Rightarrow> toNumber (v - int k) | PosInf \<Rightarrow> PosInf | NegInf \<Rightarrow> NegInf)"

text \<open>The comparison \<^verbatim>\<open>x < y\<close> of two numbers.\<close>

fun numLess :: "jsnum \<Rightarrow> jsnum \<Rightarrow> bool" where
  "numLess (Num a) (Num b) = (a < b)"
| "numLess NegInf y = (y \<noteq> NegInf)"
| "numLess x PosInf = (x \<noteq> PosInf)"
| "numLess x y = False"

text \<open>The decimal notation of a non-negative integer, and of an integer.\<close>

definition digitChar :: "int \<Rightarrow> char" where
  "digitChar d = ''0123456789'' ! nat d"

function decimalNat :: "int \<Rightarrow> string" where
  "decimalNat n = (if n < 10 then [digitChar n] else decimalNat (n div 10) @ [digitChar (n mod 10)])"
  by pat_completeness auto
termination
  by (relation "measure nat") auto

declare decimalNat.simps [simp del]

definition decimalInt :: "int \<Rightarrow> string" where
  "decimalInt i = (if i < 0 then CHR ''-'' # decimalNat (- i) else decimalNat i)"

text \<open>
  A number inside a template literal is printed with the fewest digits that read back as
  the same double. \<open>shortestFrom x j\<close> looks for the multiple of the highest power of ten,
  from \<open>10^j\<close> down, that rounds to the double \<open>x\<close>; of the two multiples next to \<open>x\<close> it
  takes the nearer, and on a tie the one with the even digits.
\<close>

fun shortestFrom :: "int \<Rightarrow> nat \<Rightarrow> int" where
  "shortestFrom x 0 = x"
| "shortestFrom x (Suc j) =
     (let p = 10 ^ Suc j; lo = (x div p) * p; hi = lo + p;
          okLo = (0 < lo \<and> roundMagnitude lo = Some x); okHi = (roundMagnitude hi = Some x)
      in if okLo \<and> okHi then
           (if x - lo < hi - x then lo
            else if hi - x < x - lo then hi
            else if even (x div p) then lo else hi)
         else if okLo then lo
         else if okHi then hi
         else shortestFrom x j)"

text \<open>The notation with an exponent, used from \<open>10^21\<close> on: \<^verbatim>\<open>1e+21\<close>, \<^verbatim>\<open>1.5e+300\<close>.\<close>

definition exponentForm :: "int \<Rightarrow> string" where
  "exponentForm c =
     (let ds = decimalNat c; s = rev (dropWhile (\<lambda>d. d = CHR ''0'') (rev ds))
      in (case s of [] \<Rightarrow> ''0'' | d # t \<Rightarrow> if t = [] then [d] else d # CHR ''.'' # t) @
         ''e+'' @ decimalNat (int (length ds) - 1))"

text \<open>
  Below \<open>2^53\<close> every integer is a double of its own, so the fewest digits that read back
  as the number are its decimal digits.
\<close>

definition magnitudeString :: "int \<Rightarrow> string" where
  "magnitudeString x =
     (if x < 2 ^ 53 then decimalNat x
      else let c = shortestFrom x (length (decimalNat x))
           in if c < 10 ^ 21 then decimalNat c else exponentForm c)"

text \<open>\<^verbatim>\<open>${x}\<close> for a number \<open>x\<close>.\<close>

definition numToString :: "jsnum \<Rightarrow> string" where
  "numToString x =
     (case x of
        Num i \<Rightarrow> (if i < 0 then CHR ''-'' # magnitudeString (- i) else magnitudeString i)
      | PosInf \<Rightarrow> ''Infinity''
      | NegInf \<Rightarrow> ''-Infinity'')"

section \<open>Regular expressions\<close>

text \<open>
  An exclusion rule is \<^verbatim>\<open>new RegExp(pattern)\<close>, without flags, used only through
  \<^verbatim>\<open>regex.test(codeLine)\<close>: a predicate on strings that keeps no state between calls.
\<close>

type_synonym regex = "string \<Rightarrow> bool"

text \<open>
  The two hunk-header patterns are matched by hand. \<open>digits1\<close> is \<^verbatim>\<open>\d+\<close>: the longest
  non-empty run of digits. Taking the longest run loses no match, because in both patterns
  the text after \<^verbatim>\<open>\d+\<close> starts with a character that is not a digit. \<open>lit\<close> is a literal.
\<close>

definition digits1 :: "string \<Rightarrow> (string \<times> string) option" where
  "digits1 s = (if takeWhile isDigit s = [] then None
                else Some (takeWhile isDigit s, dropWhile isDigit s))"

definition lit :: "string \<Rightarrow> string \<Rightarrow> string option" where
  "lit p s = (if prefix p s then Some (drop (length p) s) else None)"

text \<open>
  \<^verbatim>\<open>/@@ -(\d+),(\d+) \+(\d+),(\d+) @@/\<close> tried at the start of \<open>s\<close>; the result holds the four
  captured groups.
\<close>

definition filterHeaderAt :: "string \<Rightarrow> (string \<times> string \<times> string \<times> string) option" where
  "filterHeaderAt s = do {
     r \<leftarrow> lit ''@@ -'' s;
     (m1, r) \<leftarrow> digits1 r;
     r \<leftarrow> lit '','' r;
     (m2, r) \<leftarrow> digits1 r;
     r \<leftarrow> lit '' +'' r;
     (m3, r) \<leftarrow> digits1 r;
     r \<leftarrow> lit '','' r;
     (m4, r) \<leftarrow> digits1 r;
     _ \<leftarrow> lit '' @@'' r;
     Some (m1, m2, m3, m4)
   }"

text \<open>\<^verbatim>\<open>line.match(...)\<close> with that pattern: the leftmost position where it matches.\<close>

fun headerMatch :: "string \<Rightarrow> (string \<times> string \<times> string \<times> string) option" where
  "headerMatch [] = filterHeaderAt []"
| "headerMatch (c # cs) =
     (case filterHeaderAt (c # cs) of Some m \<Rightarrow> Some m | None \<Rightarrow> headerMatch cs)"

text \<open>
  The optional group \<^verbatim>\<open>(?:,\d+)?\<close>: a comma and digits are consumed when present. When the
  group has matched and the rest of the pattern fails, no other choice succeeds: the pattern
  continues with a space, and after fewer digits comes a digit, after no group a comma.
\<close>

definition optCount :: "string \<Rightarrow> string" where
  "optCount s = (case lit '','' s of
                   None \<Rightarrow> s
                 | Some r \<Rightarrow> (case digits1 r of None \<Rightarrow> s | Some (_, r') \<Rightarrow> r'))"

text \<open>
  \<^verbatim>\<open>/@@ -\d+(?:,\d+)? \+(\d+)(?:,\d+)? @@/\<close> tried at the start of \<open>s\<close>; the result is the one
  captured group.
\<close>

definition parseHeaderAt :: "string \<Rightarrow> string option" where
  "parseHeaderAt s = do {
     r \<leftarrow> lit ''@@ -'' s;
     (_, r) \<leftarrow> digits1 r;
     r \<leftarrow> lit '' +'' (optCount r);
     (m1, r) \<leftarrow> digits1 r;
     _ \<leftarrow> lit '' @@'' (optCount r);
     Some m1
   }"

fun parseHeaderMatch :: "string \<Rightarrow> string option" where
  "parseHeaderMatch [] = parseHeaderAt []"
| "parseHeaderMatch (c # cs) =
     (case parseHeaderAt (c # cs) of Some m \<Rightarrow> Some m | None \<Rightarrow> parseHeaderMatch cs)"

section \<open>The patch filter: \<^verbatim>\<open>createFilteredPatch\<close>\<close>

record filter_state =
  filteredLines :: "string list"
  currentHunk :: "string list"
  skippedLines :: nat

text \<open>The four prefixes of the branch "Keep file headers".\<close>

definition isFileHeader :: "string \<Rightarrow> bool" where
  "isFileHeader line =
     (startsWith line ''diff '' \<or> startsWith line ''index '' \<or>
      startsWith line ''--- '' \<or> startsWith line ''+++ '')"

text \<open>\<^verbatim>\<open>filterRegexes.some((regex) => regex.test(codeLine))\<close> for the added line \<open>line\<close>.\<close>

definition shouldFilter :: "regex list \<Rightarrow> string \<Rightarrow> bool" where
  "shouldFilter filterRegexes line = list_ex (\<lambda>regex. regex (trim (drop 1 line))) filterRegexes"

text \<open>The header the filter writes in place of \<open>currentHunk[0]\<close>.\<close>

definition hunkHeader :: "jsnum \<Rightarrow> string \<Rightarrow> jsnum \<Rightarrow> jsnum \<Rightarrow> string" where
  "hunkHeader oldStart oldCount newStart newFinalCount =
     ''@@ -'' @ numToString oldStart @ '','' @ oldCount @ '' +'' @ numToString newStart @ '','' @
     numToString newFinalCount @ '' @@''"

text \<open>
  "Process previous hunk" and "Process the last hunk" run the same code on a non-empty
  \<open>currentHunk\<close>: the header is rewritten when the pattern matches it, and the hunk is what
  gets pushed to \<open>filteredLines\<close>.
\<close>

definition processHunk :: "string list \<Rightarrow> nat \<Rightarrow> string list" where
  "processHunk hunk skipped =
     (case headerMatch (hd hunk) of
        Some (m1, m2, m3, m4) \<Rightarrow>
          hunkHeader (parseInt m1) m2 (parseInt m3) (minusCount (parseInt m4) skipped) # tl hunk
      | None \<Rightarrow> hunk)"

definition flushHunk :: "filter_state \<Rightarrow> string list" where
  "flushHunk st =
     (if currentHunk st \<noteq> [] then filteredLines st @ processHunk (currentHunk st) (skippedLines st)
      else filteredLines st)"

text \<open>One iteration of \<^verbatim>\<open>for (const line of lines)\<close>.\<close>

definition filterStep :: "regex list \<Rightarrow> filter_state \<Rightarrow> string \<Rightarrow> filter_state" where
  "filterStep filterRegexes st line =
     (if isFileHeader line then st\<lparr>filteredLines := filteredLines st @ [line]\<rparr>
      else if startsWith line ''@@'' then
        \<lparr>filteredLines = flushHunk st, currentHunk = [line], skippedLines = 0\<rparr>
      else if currentHunk st \<noteq> [] then
        (if startsWith line ''+'' then
           (if shouldFilter filterRegexes line then st\<lparr>skippedLines := skippedLines st + 1\<rparr>
            else st\<lparr>currentHunk := currentHunk st @ [line]\<rparr>)
         else st\<lparr>currentHunk := currentHunk st @ [line]\<rparr>)
      else st)"

definition filterInit :: filter_state where
  "filterInit = \<lparr>filteredLines = [], currentHunk = [], skippedLines = 0\<rparr>"

text \<open>The loop and the last hunk, on the array of lines.\<close>

definition filterLines :: "regex list \<Rightarrow> string list \<Rightarrow> string list" where
  "filterLines filterRegexes lines = flushHunk (foldl (filterStep filterRegexes) filterInit lines)"

text \<open>
  \<open>createFilteredPatch\<close>. The patterns come from the configuration and are a parameter here;
  the source's \<open>filePath\<close> parameter is unused.
\<close>

definition createFilteredPatch :: "regex list \<Rightarrow> string \<Rightarrow> string" where
  "createFilteredPatch filterRegexes diff = join_nl (filterLines filterRegexes (split_nl diff))"

section \<open>The diff structurer: \<^verbatim>\<open>getFileChangeType\<close> and \<^verbatim>\<open>parseDiff\<close>\<close>

text \<open>
  \<open>getFileChangeType\<close> returns the status numbers the source comments name:
  7 for an untracked or new file, 6 for a deleted file, 1 for a modified file.
\<close>

definition getFileChangeType :: "string \<Rightarrow> nat" where
  "getFileChangeType diff =
     (if includesSub diff ''new file mode'' then 7
      else if includesSub diff ''deleted file mode'' then 6
      else 1)"

datatype line_type = Added | Removed | Context

record diff_line =
  lineType :: line_type
  content :: string
  lineNumber :: jsnum

record hunk =
  header :: string
  lines :: "diff_line list"

text \<open>
  The object \<open>parseDiff\<close> returns. Only the binary branch sets \<open>isBinary\<close>; the other
  branch returns an object without that property, which is \<open>None\<close> here. The property
  \<open>type\<close> of an entry is \<open>lineType\<close> and that of the result is \<open>fileType\<close>.
\<close>

record file_diff =
  filePath :: string
  fileType :: nat
  hunks :: "hunk list"
  isBinary :: "bool option"

text \<open>
  The variables of the loop in \<open>parseDiff\<close>: \<open>hunks\<close>, \<open>currentHunk\<close> and
  \<open>currentLineNumber\<close>. The first two are \<open>parsedHunks\<close> and \<open>openHunk\<close> here, the names
  being taken by the result and by the state of the filter; \<open>null\<close> is \<open>None\<close>.
\<close>

record parse_state =
  parsedHunks :: "hunk list"
  openHunk :: "hunk option"
  currentLineNumber :: jsnum

text \<open>\<^verbatim>\<open>match ? parseInt(match[1], 10) : 0\<close> for the header line of a hunk.\<close>

definition hunkStart :: "string \<Rightarrow> jsnum" where
  "hunkStart line = (case parseHeaderMatch line of Some m \<Rightarrow> parseInt m | None \<Rightarrow> Num 0)"

definition isSkippedHeader :: "string \<Rightarrow> bool" where
  "isSkippedHeader line =
     (startsWith line ''diff --git'' \<or> startsWith line ''index '' \<or>
      startsWith line ''new file'' \<or> startsWith line ''deleted file'')"

text \<open>
  \<^verbatim>\<open>currentHunk.lines.push({type, content: line, lineNumber: currentLineNumber})\<close>, with the
  value the counter has afterwards.
\<close>

definition pushLine :: "parse_state \<Rightarrow> hunk \<Rightarrow> line_type \<Rightarrow> string \<Rightarrow> jsnum \<Rightarrow> parse_state" where
  "pushLine st h t line next =
     st\<lparr>openHunk := Some (h\<lparr>lines := lines h @
            [\<lparr>lineType = t, content = line, lineNumber = currentLineNumber st\<rparr>]\<rparr>),
        currentLineNumber := next\<rparr>"

text \<open>One iteration of the loop of \<open>parseDiff\<close>.\<close>

definition parseStep :: "parse_state \<Rightarrow> string \<Rightarrow> parse_state" where
  "parseStep st line =
     (if isSkippedHeader line then st
      else if startsWith line ''@@'' then
        \<lparr>parsedHunks = (case openHunk st of Some h \<Rightarrow> parsedHunks st @ [h] | None \<Rightarrow> parsedHunks st),
         openHunk = Some \<lparr>header = line, lines = []\<rparr>,
         currentLineNumber = hunkStart line\<rparr>
      else (case openHunk st of
              None \<Rightarrow> st
            | Some h \<Rightarrow>
                if startsWith line ''+'' then pushLine st h Added line (increment (currentLineNumber st))
                else if startsWith line ''-'' then pushLine st h Removed line (currentLineNumber st)
                else if \<not> startsWith line [CHR 0x5C] then
                  pushLine st h Context line (increment (currentLineNumber st))
                else st))"

definition parseInit :: parse_state where
  "parseInit = \<lparr>parsedHunks = [], openHunk = None, currentLineNumber = Num 0\<rparr>"

text \<open>After the loop the open hunk is pushed only when it has lines.\<close>

definition finishHunks :: "parse_state \<Rightarrow> hunk list" where
  "finishHunks st =
     (case openHunk st of
        Some h \<Rightarrow> if lines h \<noteq> [] then parsedHunks st @ [h] else parsedHunks st
      | None \<Rightarrow> parsedHunks st)"

definition parseLines :: "string list \<Rightarrow> hunk list" where
  "parseLines ls = finishHunks (foldl parseStep parseInit ls)"

definition parseDiff :: "string \<Rightarrow> string \<Rightarrow> nat \<Rightarrow> file_diff" where
  "parseDiff diff path type =
     (if includesSub diff ''Binary files'' \<or> includesSub diff ''GIT binary patch'' then
        \<lparr>filePath = path, fileType = type, hunks = [], isBinary = Some True\<rparr>
      else
        \<lparr>filePath = path, fileType = type, hunks = parseLines (split_nl diff), isBinary = None\<rparr>)"

text \<open>
  What \<open>parseStagedDiffs\<close> pushes for one segment \<open>fileDiff\<close> of the staged diff:
  \<^verbatim>\<open>parseDiff(fileDiff, fullFilePath, getFileChangeType(fileDiff))\<close>.
\<close>

definition parseSegment :: "string \<Rightarrow> string \<Rightarrow> file_diff" where
  "parseSegment fullFilePath fileDiff = parseDiff fileDiff fullFilePath (getFileChangeType fileDiff)"

section \<open>Notions the properties are stated with\<close>

text \<open>
  Inside a hunk the filter treats a line as an added line when it starts with \<open>+\<close> and is
  not taken by the file-header branch before (a line starting with \<open>+++ \<close> is).
\<close>

definition isAddedLine :: "string \<Rightarrow> bool" where
  "isAddedLine line = (startsWith line ''+'' \<and> \<not> isFileHeader line)"

text \<open>The body lines of a hunk that the filter drops, and those it keeps in the hunk.\<close>

definition droppedLines :: "regex list \<Rightarrow> string list \<Rightarrow> string list" where
  "droppedLines rules body = filter (\<lambda>l. isAddedLine l \<and> shouldFilter rules l) body"

definition keptLines :: "regex list \<Rightarrow> string list \<Rightarrow> string list" where
  "keptLines rules body =
     filter (\<lambda>l. \<not> isFileHeader l \<and> \<not> (isAddedLine l \<and> shouldFilter rules l)) body"

text \<open>
  The body lines of a diff are the lines after its first hunk header; \<open>addedBodyLines\<close>
  are the added lines among them.
\<close>

definition addedBodyLines :: "string list \<Rightarrow> string list" where
  "addedBodyLines ls = filter isAddedLine (dropWhile (\<lambda>l. \<not> startsWith l ''@@'') ls)"

text \<open>A string of one or more digits, as \<^verbatim>\<open>\d+\<close> matches it in full.\<close>

definition isNumber :: "string \<Rightarrow> bool" where
  "isNumber ds = (ds \<noteq> [] \<and> list_all isDigit ds)"

text \<open>
  The entries \<open>es\<close> are numbered by a counter that starts at \<open>n\<close>, advances after an added
  or context entry and stays after a removed one.
\<close>

fun numberedFrom :: "jsnum \<Rightarrow> diff_line list \<Rightarrow> bool" where
  "numberedFrom n [] = True"
| "numberedFrom n (e # es) =
     (lineNumber e = n \<and> numberedFrom (if lineType e = Removed then n else increment n) es)"

text \<open>The value of that counter after the entries \<open>es\<close>.\<close>

fun counterAfter :: "jsnum \<Rightarrow> diff_line list \<Rightarrow> jsnum" where
  "counterAfter n [] = n"
| "counterAfter n (e # es) = counterAfter (if lineType e = Removed then n else increment n) es"

text \<open>The test pattern of the specification's example: \<^verbatim>\<open>/^\s*console\./\<close>.\<close>

definition rule_console :: regex where
  "rule_console s = startsWith (dropWhile isSpace s) ''console.''"

text \<open>Removing every carriage return: two texts equal up to line endings have equal images.\<close>

definition stripCR :: "string \<Rightarrow> string" where
  "stripCR s = filter (\<lambda>c. c \<noteq> CHR 0x0D) s"

text \<open>
  The header \<^verbatim>\<open>@@ -a,b +c,d @@\<close> with \<open>a\<close>, \<open>c\<close> and \<open>d\<close> in decimal notation and nothing
  around it.
\<close>

definition canonicalHeader :: "int \<Rightarrow> string \<Rightarrow> int \<Rightarrow> int \<Rightarrow> string" where
  "canonicalHeader a b c d =
     ''@@ -'' @ decimalNat a @ '','' @ b @ '' +'' @ decimalNat c @ '','' @ decimalInt d @ '' @@''"

text \<open>The entries that take a line of the new file: all but the removed ones.\<close>

definition newSideCount :: "diff_line list \<Rightarrow> nat" where
  "newSideCount es = length (filter (\<lambda>e. lineType e \<noteq> Removed) es)"

text \<open>An optional count of a hunk header: nothing, or a comma and a number.\<close>

definition isOptCount :: "string \<Rightarrow> bool" where
  "isOptCount s = (case s of [] \<Rightarrow> True | c # b \<Rightarrow> c = CHR '','' \<and> isNumber b)"

text \<open>
  The invariant of the loop of \<open>parseDiff\<close>: every hunk is numbered from the start its
  header gives, and \<open>currentLineNumber\<close> is the counter after the entries of the open hunk.
\<close>

definition parseInv :: "parse_state \<Rightarrow> bool" where
  "parseInv st =
     ((\<forall>h\<in>set (parsedHunks st). numberedFrom (hunkStart (header h)) (lines h)) \<and>
      (case openHunk st of
         None \<Rightarrow> True
       | Some h \<Rightarrow> numberedFrom (hunkStart (header h)) (lines h) \<and>
                   currentLineNumber st = counterAfter (hunkStart (header h)) (lines h)))"



section \<open>Lines and substrings\<close>

lemma includesSub_iff: "includesSub s sub \<longleftrightarrow> (\<exists>pre post. s = pre @ sub @ post)"
proof (induction s)
  case Nil
  then show ?case by auto
next
  case (Cons c cs)
  show ?case
  proof
    assume "includesSub (c # cs) sub"
    then consider "prefix sub (c # cs)" | "includesSub cs sub" by auto
    then show "\<exists>pre post. c # cs = pre @ sub @ post"
    proof cases
      case 1
      then obtain post where "c # cs = sub @ post" by (auto simp: prefix_def)
      then have "c # cs = [] @ sub @ post" by simp
      then show ?thesis by blast
    next
      case 2
      with Cons.IH obtain pre post where "cs = pre @ sub @ post" by blast
      then have "c # cs = (c # pre) @ sub @ post" by simp
      then show ?thesis by blast
    qed
  next
    assume "\<exists>pre post. c # cs = pre @ sub @ post"
    then obtain pre post where e: "c # cs = pre @ sub @ post" by blast
    show "includesSub (c # cs) sub"
    proof (cases pre)
      case Nil
      with e have "prefix sub (c # cs)" by (simp add: prefix_def)
      then show ?thesis by simp
    next
      case (Cons a pre')
      with e have "cs = pre' @ sub @ post" by simp
      with Cons.IH have "includesSub cs sub" by blast
      then show ?thesis by simp
    qed
  qed
qed

lemma split_nl_nonempty: "split_nl s \<noteq> []"
  by (induction s) (auto simp: pushChar_def)

lemma join_pushChar: "ls \<noteq> [] \<Longrightarrow> join_nl (pushChar c ls) = c # join_nl ls"
  by (cases ls rule: join_nl.cases) (auto simp: pushChar_def)

lemma join_nl_Cons: "ls \<noteq> [] \<Longrightarrow> join_nl (l # ls) = l @ CHR 0x0A # join_nl ls"
  by (cases ls) auto

lemma join_split_nl: "join_nl (split_nl s) = s"
  by (induction s) (auto simp: join_pushChar split_nl_nonempty join_nl_Cons)

lemma split_nl_no_newline: "CHR 0x0A \<notin> set l \<Longrightarrow> split_nl (l @ CHR 0x0A # r) = l # split_nl r"
  by (induction l) (auto simp: pushChar_def)

lemma split_nl_single: "CHR 0x0A \<notin> set l \<Longrightarrow> split_nl l = [l]"
  by (induction l) (auto simp: pushChar_def)

lemma split_join_nl:
  "ls \<noteq> [] \<Longrightarrow> \<forall>l\<in>set ls. CHR 0x0A \<notin> set l \<Longrightarrow> split_nl (join_nl ls) = ls"
  by (induction ls rule: join_nl.induct) (auto simp: split_nl_single split_nl_no_newline)

lemma split_nl_lines: "l \<in> set (split_nl s) \<Longrightarrow> CHR 0x0A \<notin> set l"
proof (induction s arbitrary: l)
  case Nil
  then show ?case by simp
next
  case (Cons c cs)
  have ne: "split_nl cs \<noteq> []" by (rule split_nl_nonempty)
  show ?case
  proof (cases "c = CHR 0x0A")
    case True
    with Cons show ?thesis by auto
  next
    case False
    with Cons.prems have "l = c # hd (split_nl cs) \<or> l \<in> set (tl (split_nl cs))"
      by (simp add: pushChar_def)
    then show ?thesis
    proof
      assume l: "l = c # hd (split_nl cs)"
      have "hd (split_nl cs) \<in> set (split_nl cs)" using ne by simp
      then have "CHR 0x0A \<notin> set (hd (split_nl cs))" by (rule Cons.IH)
      with l False show ?thesis by auto
    next
      assume "l \<in> set (tl (split_nl cs))"
      then have "l \<in> set (split_nl cs)" using ne by (meson list.set_sel(2))
      then show ?thesis by (rule Cons.IH)
    qed
  qed
qed

section \<open>Numbers below \<open>2^53\<close>\<close>

text \<open>
  Below \<open>2^53\<close> reading, counting, subtracting and printing are exact; whatever the
  number, what is printed holds no line break.
\<close>

lemma toNumber_exact: "- (2 ^ 53) < i \<Longrightarrow> i < 2 ^ 53 \<Longrightarrow> toNumber i = Num i"
  by (simp add: toNumber_def roundMagnitude_def)

lemma increment_exact: "0 \<le> v \<Longrightarrow> v + 1 < 2 ^ 53 \<Longrightarrow> increment (Num v) = Num (v + 1)"
  by (simp add: increment_def toNumber_exact)

lemma minusCount_exact:
  "0 \<le> v \<Longrightarrow> v < 2 ^ 53 \<Longrightarrow> int k < 2 ^ 53 \<Longrightarrow> minusCount (Num v) k = Num (v - int k)"
  by (simp add: minusCount_def toNumber_exact)

lemma numToString_exact:
  "- (2 ^ 53) < i \<Longrightarrow> i < 2 ^ 53 \<Longrightarrow> numToString (Num i) = decimalInt i"
  by (simp add: numToString_def magnitudeString_def decimalInt_def)

lemma isDigit_digitChar: "d < 10 \<Longrightarrow> isDigit (digitChar d)"
proof -
  assume "d < 10"
  then have "nat d \<in> {0, 1, 2, 3, 4, 5, 6, 7, 8, 9}" by auto
  then show ?thesis by (auto simp: isDigit_def digitChar_def)
qed

lemma decimalNat_digits: "list_all isDigit (decimalNat n)"
proof (induction n rule: decimalNat.induct)
  case (1 n)
  show ?case
  proof (cases "n < 10")
    case True
    then show ?thesis by (subst decimalNat.simps) (simp add: isDigit_digitChar)
  next
    case False
    with 1 show ?thesis by (subst decimalNat.simps) (simp add: isDigit_digitChar)
  qed
qed

lemma decimalNat_nonempty: "decimalNat n \<noteq> []"
  by (subst decimalNat.simps) simp

lemma isNumber_decimalNat: "isNumber (decimalNat n)"
  by (simp add: isNumber_def decimalNat_digits decimalNat_nonempty)

lemma digitVal_digitChar: "0 \<le> d \<Longrightarrow> d < 10 \<Longrightarrow> digitVal (digitChar d) = d"
proof -
  assume "0 \<le> d" "d < 10"
  then have "d \<in> {0, 1, 2, 3, 4, 5, 6, 7, 8, 9}" by (simp only: insert_iff empty_iff) arith
  then show ?thesis by (auto simp: digitVal_def digitChar_def)
qed

lemma digitVal_digit: "isDigit c \<Longrightarrow> 0 \<le> digitVal c"
  by (auto simp: isDigit_def digitVal_def)

lemma digitsValue_snoc: "digitsValue (ds @ [c]) = 10 * digitsValue ds + digitVal c"
  by (simp add: digitsValue_def)

lemma digitsValue_nonneg: "list_all isDigit ds \<Longrightarrow> 0 \<le> digitsValue ds"
proof (induction ds rule: rev_induct)
  case Nil
  show ?case by (simp add: digitsValue_def)
next
  case (snoc c ds)
  then have "0 \<le> digitsValue ds" "0 \<le> digitVal c" by (simp_all add: digitVal_digit)
  then show ?case by (simp add: digitsValue_snoc)
qed

lemma digitsValue_decimalNat: "0 \<le> n \<Longrightarrow> digitsValue (decimalNat n) = n"
proof (induction n rule: decimalNat.induct)
  case (1 n)
  show ?case
  proof (cases "n < 10")
    case True
    with 1 show ?thesis
      by (subst decimalNat.simps) (simp add: digitsValue_def digitVal_digitChar)
  next
    case False
    with 1 have "digitsValue (decimalNat (n div 10)) = n div 10" by simp
    with False show ?thesis
      by (subst decimalNat.simps) (simp add: digitsValue_snoc digitVal_digitChar)
  qed
qed

lemma parseInt_exact:
  "isNumber ds \<Longrightarrow> digitsValue ds < 2 ^ 53 \<Longrightarrow> parseInt ds = Num (digitsValue ds)"
  using digitsValue_nonneg [of ds] by (simp add: parseInt_def isNumber_def toNumber_exact)

lemma parseInt_decimalNat: "0 \<le> n \<Longrightarrow> n < 2 ^ 53 \<Longrightarrow> parseInt (decimalNat n) = Num n"
  by (simp add: parseInt_exact isNumber_decimalNat digitsValue_decimalNat)

lemma digit_not_newline: "isDigit c \<Longrightarrow> c \<noteq> CHR 0x0A"
  by (auto simp: isDigit_def)

lemma number_no_newline: "list_all isDigit ds \<Longrightarrow> CHR 0x0A \<notin> set ds"
  by (auto simp: list_all_iff dest: digit_not_newline)

lemma decimalNat_no_newline: "CHR 0x0A \<notin> set (decimalNat n)"
  by (rule number_no_newline [OF decimalNat_digits])

lemma exponentForm_no_newline: "CHR 0x0A \<notin> set (exponentForm c)"
proof -
  define s where "s = rev (dropWhile (\<lambda>d. d = CHR ''0'') (rev (decimalNat c)))"
  have "set s \<subseteq> set (decimalNat c)"
    unfolding s_def by (auto dest: set_dropWhileD)
  then have s: "CHR 0x0A \<notin> set s" using decimalNat_no_newline [of c] by blast
  have "CHR 0x0A \<notin> set (case s of [] \<Rightarrow> ''0'' | d # t \<Rightarrow> if t = [] then [d] else d # CHR ''.'' # t)"
    using s by (cases s) auto
  then show ?thesis
    using decimalNat_no_newline by (simp add: exponentForm_def Let_def flip: s_def)
qed

lemma magnitudeString_no_newline: "CHR 0x0A \<notin> set (magnitudeString x)"
  by (simp add: magnitudeString_def Let_def decimalNat_no_newline exponentForm_no_newline)

lemma numToString_no_newline: "CHR 0x0A \<notin> set (numToString x)"
  by (cases x) (simp_all add: numToString_def magnitudeString_no_newline)

section \<open>The loop of the patch filter\<close>

text \<open>
  The output is only ever extended, so the input can be cut in front of a hunk header and
  the pieces filtered apart; in front of the first hunk header file-header lines are kept
  and all else is dropped; inside a hunk each line is kept, dropped or moved to the output.
\<close>

lemma hunk_header_not_file_header: "startsWith l ''@@'' \<Longrightarrow> \<not> isFileHeader l"
  by (auto simp: startsWith_def isFileHeader_def prefix_def)

lemma hunk_header_not_added: "startsWith l ''@@'' \<Longrightarrow> \<not> startsWith l ''+''"
  by (auto simp: startsWith_def prefix_def)

lemma flushHunk_init: "flushHunk filterInit = []"
  by (simp add: flushHunk_def filterInit_def)

lemma filterStep_prepend:
  "filterStep rules (st\<lparr>filteredLines := out @ filteredLines st\<rparr>) l =
   (filterStep rules st l)\<lparr>filteredLines := out @ filteredLines (filterStep rules st l)\<rparr>"
  by (simp add: filterStep_def flushHunk_def)

lemma foldl_filterStep_prepend:
  "foldl (filterStep rules) (st\<lparr>filteredLines := out @ filteredLines st\<rparr>) ls =
   (foldl (filterStep rules) st ls)\<lparr>filteredLines := out @ filteredLines (foldl (filterStep rules) st ls)\<rparr>"
proof (induction ls arbitrary: st)
  case Nil
  show ?case by simp
next
  case (Cons l ls)
  show ?case by (simp only: foldl_Cons filterStep_prepend Cons.IH)
qed

lemma flushHunk_prepend:
  "flushHunk (st\<lparr>filteredLines := out @ filteredLines st\<rparr>) = out @ flushHunk st"
  by (simp add: flushHunk_def)

lemma filterStep_hunk_header:
  "startsWith h ''@@'' \<Longrightarrow>
   filterStep rules st h = \<lparr>filteredLines = flushHunk st, currentHunk = [h], skippedLines = 0\<rparr>"
  by (simp add: filterStep_def hunk_header_not_file_header)

lemma filterLines_Nil: "filterLines rules [] = []"
  by (simp add: filterLines_def flushHunk_init)

lemma filterLines_cut:
  assumes "rest = [] \<or> startsWith (hd rest) ''@@''"
  shows "filterLines rules (xs @ rest) = filterLines rules xs @ filterLines rules rest"
proof (cases rest)
  case Nil
  then show ?thesis by (simp add: filterLines_Nil)
next
  case (Cons h r)
  with assms have h: "startsWith h ''@@''" by simp
  let ?st = "foldl (filterStep rules) filterInit xs"
  let ?s0 = "\<lparr>filteredLines = [], currentHunk = [h], skippedLines = 0\<rparr>"
  have a: "filterStep rules ?st h = ?s0\<lparr>filteredLines := flushHunk ?st @ filteredLines ?s0\<rparr>"
    using h by (simp add: filterStep_hunk_header)
  have b: "filterStep rules filterInit h = ?s0"
    using h by (simp add: filterStep_hunk_header flushHunk_init)
  have "filterLines rules (xs @ rest) = flushHunk (foldl (filterStep rules) (filterStep rules ?st h) r)"
    by (simp add: filterLines_def Cons)
  also have "\<dots> = flushHunk ?st @ flushHunk (foldl (filterStep rules) ?s0 r)"
    by (simp only: a foldl_filterStep_prepend flushHunk_prepend)
  also have "flushHunk (foldl (filterStep rules) ?s0 r) = filterLines rules rest"
    by (simp add: filterLines_def Cons b)
  finally show ?thesis by (simp add: filterLines_def)
qed

lemma foldl_filterStep_body:
  "\<forall>l\<in>set body. \<not> startsWith l ''@@'' \<Longrightarrow> currentHunk st \<noteq> [] \<Longrightarrow>
   foldl (filterStep rules) st body =
   \<lparr>filteredLines = filteredLines st @ filter isFileHeader body,
    currentHunk = currentHunk st @ keptLines rules body,
    skippedLines = skippedLines st + length (droppedLines rules body)\<rparr>"
proof (induction body arbitrary: st)
  case Nil
  then show ?case by (simp add: keptLines_def droppedLines_def)
next
  case (Cons l ls)
  have ne: "currentHunk (filterStep rules st l) \<noteq> []"
    using Cons.prems by (simp add: filterStep_def)
  have "foldl (filterStep rules) st (l # ls) = foldl (filterStep rules) (filterStep rules st l) ls"
    by simp
  also have "\<dots> = \<lparr>filteredLines = filteredLines (filterStep rules st l) @ filter isFileHeader ls,
    currentHunk = currentHunk (filterStep rules st l) @ keptLines rules ls,
    skippedLines = skippedLines (filterStep rules st l) + length (droppedLines rules ls)\<rparr>"
    using Cons.prems ne by (intro Cons.IH) auto
  also have "\<dots> = \<lparr>filteredLines = filteredLines st @ filter isFileHeader (l # ls),
    currentHunk = currentHunk st @ keptLines rules (l # ls),
    skippedLines = skippedLines st + length (droppedLines rules (l # ls))\<rparr>"
    using Cons.prems by (simp add: filterStep_def keptLines_def droppedLines_def isAddedLine_def)
  finally show ?case .
qed

lemma foldl_filterStep_preamble:
  "\<forall>l\<in>set pre. \<not> startsWith l ''@@'' \<Longrightarrow> currentHunk st = [] \<Longrightarrow>
   foldl (filterStep rules) st pre = st\<lparr>filteredLines := filteredLines st @ filter isFileHeader pre\<rparr>"
proof (induction pre arbitrary: st)
  case Nil
  then show ?case by simp
next
  case (Cons l ls)
  define st' where "st' = filterStep rules st l"
  have s: "st' = st\<lparr>filteredLines := filteredLines st @ filter isFileHeader [l]\<rparr>"
    using Cons.prems by (simp add: st'_def filterStep_def)
  then have e: "currentHunk st' = []" using Cons.prems by simp
  have "foldl (filterStep rules) st' ls = st'\<lparr>filteredLines := filteredLines st' @ filter isFileHeader ls\<rparr>"
    using Cons.prems e by (intro Cons.IH) auto
  also have "\<dots> = st\<lparr>filteredLines := filteredLines st @ filter isFileHeader (l # ls)\<rparr>"
    by (simp add: s)
  finally show ?case by (simp add: st'_def)
qed

lemma processHunk_matched:
  "headerMatch h = Some (m1, m2, m3, m4) \<Longrightarrow>
   processHunk (h # body) k =
   hunkHeader (parseInt m1) m2 (parseInt m3) (minusCount (parseInt m4) k) # body"
  by (simp add: processHunk_def)

lemma filterLines_one_hunk:
  assumes "startsWith h ''@@''" and "\<forall>l\<in>set body. \<not> startsWith l ''@@''"
  shows "filterLines rules (h # body) =
         filter isFileHeader body @ processHunk (h # keptLines rules body) (length (droppedLines rules body))"
proof -
  let ?s0 = "\<lparr>filteredLines = [], currentHunk = [h], skippedLines = 0\<rparr>"
  have "filterLines rules (h # body) = flushHunk (foldl (filterStep rules) ?s0 body)"
    using assms(1) by (simp add: filterLines_def filterStep_hunk_header flushHunk_init)
  also have "foldl (filterStep rules) ?s0 body =
     \<lparr>filteredLines = filter isFileHeader body, currentHunk = h # keptLines rules body,
      skippedLines = length (droppedLines rules body)\<rparr>"
    using foldl_filterStep_body [of body ?s0 rules] assms(2) by simp
  finally show ?thesis by (simp add: flushHunk_def)
qed

section \<open>Matching the hunk header\<close>

lemma takeWhile_digits:
  "list_all isDigit ds \<Longrightarrow> r = [] \<or> \<not> isDigit (hd r) \<Longrightarrow>
   takeWhile isDigit (ds @ r) = ds \<and> dropWhile isDigit (ds @ r) = r"
  by (induction ds; cases r) auto

lemma digits1_number:
  "isNumber ds \<Longrightarrow> r = [] \<or> \<not> isDigit (hd r) \<Longrightarrow> digits1 (ds @ r) = Some (ds, r)"
  using takeWhile_digits [of ds r] by (auto simp: digits1_def isNumber_def)

lemma lit_append: "lit p (p @ r) = Some r"
  by (simp add: lit_def)

lemma filterHeaderAt_canonical:
  assumes "isNumber a" "isNumber b" "isNumber c" "isNumber d"
  shows "filterHeaderAt (''@@ -'' @ a @ '','' @ b @ '' +'' @ c @ '','' @ d @ '' @@'' @ t) =
         Some (a, b, c, d)"
proof -
  have nd: "\<not> isDigit CHR '',''" "\<not> isDigit CHR '' ''" by (simp_all add: isDigit_def)
  have 1: "digits1 (a @ '','' @ b @ '' +'' @ c @ '','' @ d @ '' @@'' @ t) =
           Some (a, '','' @ b @ '' +'' @ c @ '','' @ d @ '' @@'' @ t)"
    using assms(1) nd by (intro digits1_number) auto
  have 2: "digits1 (b @ '' +'' @ c @ '','' @ d @ '' @@'' @ t) = Some (b, '' +'' @ c @ '','' @ d @ '' @@'' @ t)"
    using assms(2) nd by (intro digits1_number) auto
  have 3: "digits1 (c @ '','' @ d @ '' @@'' @ t) = Some (c, '','' @ d @ '' @@'' @ t)"
    using assms(3) nd by (intro digits1_number) auto
  have 4: "digits1 (d @ '' @@'' @ t) = Some (d, '' @@'' @ t)"
    using assms(4) nd by (intro digits1_number) auto
  have l1: "lit ''@@ -'' (''@@ -'' @ a @ '','' @ b @ '' +'' @ c @ '','' @ d @ '' @@'' @ t) =
            Some (a @ '','' @ b @ '' +'' @ c @ '','' @ d @ '' @@'' @ t)" by (rule lit_append)
  have l2: "lit '','' ('','' @ b @ '' +'' @ c @ '','' @ d @ '' @@'' @ t) =
            Some (b @ '' +'' @ c @ '','' @ d @ '' @@'' @ t)" by (rule lit_append)
  have l3: "lit '' +'' ('' +'' @ c @ '','' @ d @ '' @@'' @ t) = Some (c @ '','' @ d @ '' @@'' @ t)"
    by (rule lit_append)
  have l4: "lit '','' ('','' @ d @ '' @@'' @ t) = Some (d @ '' @@'' @ t)" by (rule lit_append)
  have l5: "lit '' @@'' ('' @@'' @ t) = Some t" by (rule lit_append)
  show ?thesis
    unfolding filterHeaderAt_def by (simp only: l1 l2 l3 l4 l5 1 2 3 4 bind.bind_lunit prod.case)
qed

lemma headerMatch_at: "filterHeaderAt s = Some m \<Longrightarrow> headerMatch s = Some m"
  by (cases s) auto

lemma processHunk_snoc:
  "hunk \<noteq> [] \<Longrightarrow> processHunk (hunk @ [l]) k = processHunk hunk k @ [l]"
  by (cases hunk) (auto simp: processHunk_def split: option.splits)

lemma isOptCount_iff: "isOptCount s \<longleftrightarrow> s = [] \<or> (\<exists>b. isNumber b \<and> s = CHR '','' # b)"
  by (cases s) (auto simp: isOptCount_def)

lemma optCount_skip:
  assumes "isOptCount oc"
  shows "optCount (oc @ CHR '' '' # r) = CHR '' '' # r"
proof (cases "oc = []")
  case True
  then show ?thesis by (simp add: optCount_def lit_def)
next
  case False
  with assms obtain b where b: "isNumber b" "oc = CHR '','' # b" by (auto simp: isOptCount_iff)
  have "\<not> isDigit CHR '' ''" by (simp add: isDigit_def)
  then have "digits1 (b @ CHR '' '' # r) = Some (b, CHR '' '' # r)"
    using b(1) by (intro digits1_number) auto
  then show ?thesis by (simp add: optCount_def lit_def b(2))
qed

lemma parseHeaderAt_canonical:
  assumes "isNumber a" "isOptCount oc" "isNumber c" "isOptCount nc"
  shows "parseHeaderAt (''@@ -'' @ a @ oc @ '' +'' @ c @ nc @ '' @@'' @ t) = Some c"
proof -
  have nd: "\<not> isDigit CHR '',''" "\<not> isDigit CHR '' ''" by (simp_all add: isDigit_def)
  have hd_oc: "\<not> isDigit (hd (oc @ '' +'' @ r))" for r
    using assms(2) nd by (auto simp: isOptCount_iff)
  have hd_nc: "\<not> isDigit (hd (nc @ '' @@'' @ r))" for r
    using assms(4) nd by (auto simp: isOptCount_iff)
  have l1: "lit ''@@ -'' (''@@ -'' @ a @ oc @ '' +'' @ c @ nc @ '' @@'' @ t) =
            Some (a @ oc @ '' +'' @ c @ nc @ '' @@'' @ t)" by (rule lit_append)
  have 1: "digits1 (a @ oc @ '' +'' @ c @ nc @ '' @@'' @ t) = Some (a, oc @ '' +'' @ c @ nc @ '' @@'' @ t)"
    using assms(1) hd_oc [of "c @ nc @ '' @@'' @ t"] by (intro digits1_number) simp_all
  have o1: "optCount (oc @ '' +'' @ c @ nc @ '' @@'' @ t) = '' +'' @ c @ nc @ '' @@'' @ t"
    using optCount_skip [OF assms(2)] by simp
  have l2: "lit '' +'' ('' +'' @ c @ nc @ '' @@'' @ t) = Some (c @ nc @ '' @@'' @ t)" by (rule lit_append)
  have 2: "digits1 (c @ nc @ '' @@'' @ t) = Some (c, nc @ '' @@'' @ t)"
    using assms(3) hd_nc [of t] by (intro digits1_number) simp_all
  have o2: "optCount (nc @ '' @@'' @ t) = '' @@'' @ t"
    using optCount_skip [OF assms(4)] by simp
  have l3: "lit '' @@'' ('' @@'' @ t) = Some t" by (rule lit_append)
  show ?thesis
    unfolding parseHeaderAt_def by (simp only: l1 1 o1 l2 2 o2 l3 bind.bind_lunit prod.case)
qed

lemma parseHeaderMatch_at: "parseHeaderAt s = Some m \<Longrightarrow> parseHeaderMatch s = Some m"
  by (cases s) auto

lemma hunkStart_header:
  assumes "isNumber a" "isOptCount oc" "isNumber c" "isOptCount nc"
  shows "hunkStart (''@@ -'' @ a @ oc @ '' +'' @ c @ nc @ '' @@'' @ t) = parseInt c"
  using parseHeaderMatch_at [OF parseHeaderAt_canonical [OF assms]] by (simp add: hunkStart_def)

lemma filterLines_hunk:
  assumes "startsWith h ''@@''"
    and "\<forall>l\<in>set body. \<not> startsWith l ''@@''"
    and "rest = [] \<or> startsWith (hd rest) ''@@''"
  shows "filterLines rules (pre @ h # body @ rest) =
         filterLines rules pre @ filter isFileHeader body @
         processHunk (h # keptLines rules body) (length (droppedLines rules body)) @
         filterLines rules rest"
proof -
  have "filterLines rules (pre @ h # body @ rest) = filterLines rules ((pre @ h # body) @ rest)"
    by simp
  also have "\<dots> = filterLines rules (pre @ h # body) @ filterLines rules rest"
    using assms(3) by (rule filterLines_cut)
  also have "filterLines rules (pre @ h # body) = filterLines rules pre @ filterLines rules (h # body)"
    using assms(1) by (intro filterLines_cut) simp
  also have "filterLines rules (h # body) =
      filter isFileHeader body @
      processHunk (h # keptLines rules body) (length (droppedLines rules body))"
    using assms(1,2) by (rule filterLines_one_hunk)
  finally show ?thesis by simp
qed

section \<open>The loop of the diff structurer\<close>

lemma numberedFrom_snoc:
  "numberedFrom n (es @ [e]) = (numberedFrom n es \<and> lineNumber e = counterAfter n es)"
  by (induction es arbitrary: n) auto

lemma counterAfter_snoc:
  "counterAfter n (es @ [e]) =
     (if lineType e = Removed then counterAfter n es else increment (counterAfter n es))"
  by (induction es arbitrary: n) auto

lemma counterAfter_append: "counterAfter n (xs @ ys) = counterAfter (counterAfter n xs) ys"
  by (induction xs arbitrary: n) auto

lemma counterAfter_exact:
  "0 \<le> n \<Longrightarrow> n + int (length es) < 2 ^ 53 \<Longrightarrow>
   counterAfter (Num n) es = Num (n + int (newSideCount es))"
proof (induction es arbitrary: n)
  case Nil
  show ?case by (simp add: newSideCount_def)
next
  case (Cons e es)
  show ?case
  proof (cases "lineType e = Removed")
    case True
    with Cons.prems Cons.IH [of n] show ?thesis by (simp add: newSideCount_def)
  next
    case False
    have "increment (Num n) = Num (n + 1)"
      using Cons.prems by (intro increment_exact) simp_all
    moreover have "counterAfter (Num (n + 1)) es = Num (n + 1 + int (newSideCount es))"
      using Cons.prems by (intro Cons.IH) simp_all
    ultimately show ?thesis using False by (simp add: newSideCount_def)
  qed
qed

lemma newSideCount_take_le: "newSideCount (take i es) \<le> length es"
proof -
  have "newSideCount (take i es) \<le> length (take i es)"
    unfolding newSideCount_def by (rule length_filter_le)
  also have "\<dots> \<le> length es" by simp
  finally show ?thesis .
qed

lemma numberedFrom_nth:
  "numberedFrom n es \<Longrightarrow> i < length es \<Longrightarrow> lineNumber (es ! i) = counterAfter n (take i es)"
proof (induction es arbitrary: n i)
  case Nil
  then show ?case by simp
next
  case (Cons e es)
  then show ?case by (cases i) auto
qed

lemma parseInv_init: "parseInv parseInit"
  by (simp add: parseInv_def parseInit_def)

lemma parseInv_pushLine:
  assumes "parseInv st" and "openHunk st = Some h"
    and "next = (if t = Removed then currentLineNumber st else increment (currentLineNumber st))"
  shows "parseInv (pushLine st h t line next)"
  using assms by (simp add: parseInv_def pushLine_def numberedFrom_snoc counterAfter_snoc)

lemma parseInv_step: "parseInv st \<Longrightarrow> parseInv (parseStep st line)"
proof -
  assume inv: "parseInv st"
  show ?thesis
  proof (cases "isSkippedHeader line")
    case True
    with inv show ?thesis by (simp add: parseStep_def)
  next
    case skip: False
    show ?thesis
    proof (cases "startsWith line ''@@''")
      case True
      with inv skip show ?thesis
        by (auto simp: parseStep_def parseInv_def split: option.splits)
    next
      case False
      show ?thesis
      proof (cases "openHunk st")
        case None
        with inv skip False show ?thesis by (simp add: parseStep_def)
      next
        case (Some h)
        with inv skip False show ?thesis
          by (simp add: parseStep_def parseInv_pushLine)
      qed
    qed
  qed
qed

lemma parseInv_foldl: "parseInv st \<Longrightarrow> parseInv (foldl parseStep st ls)"
  by (induction ls arbitrary: st) (simp_all add: parseInv_step)

lemma parseLines_numbered:
  "h \<in> set (parseLines ls) \<Longrightarrow> numberedFrom (hunkStart (header h)) (lines h)"
  using parseInv_foldl [OF parseInv_init, of ls]
  by (auto simp: parseLines_def finishHunks_def parseInv_def split: option.splits if_splits)

lemma parseDiff_hunks:
  "h \<in> set (hunks (parseDiff diff path type)) \<Longrightarrow> h \<in> set (parseLines (split_nl diff))"
  by (auto simp: parseDiff_def split: if_splits)

section \<open>Numbers in the rewritten header\<close>

text \<open>
  The groups of a match are numbers, the header the filter writes holds no line break and
  starts with \<open>@@\<close>, and a processed hunk differs from the hunk in its first line at most.
\<close>

lemma digits1_isNumber: "digits1 s = Some (ds, r) \<Longrightarrow> isNumber ds"
  by (auto simp: digits1_def isNumber_def list_all_iff split: if_splits dest: set_takeWhileD)

lemma filterHeaderAt_numbers:
  "filterHeaderAt s = Some (a, b, c, d) \<Longrightarrow> isNumber a \<and> isNumber b \<and> isNumber c \<and> isNumber d"
proof -
  assume "filterHeaderAt s = Some (a, b, c, d)"
  then obtain r1 r2 r3 r4 r1' r2' r3' r4' where
    "digits1 r1 = Some (a, r1')" "digits1 r2 = Some (b, r2')"
    "digits1 r3 = Some (c, r3')" "digits1 r4 = Some (d, r4')"
    by (auto simp: filterHeaderAt_def split: bind_splits)
  then show ?thesis by (blast dest: digits1_isNumber)
qed

lemma headerMatch_numbers:
  "headerMatch s = Some (a, b, c, d) \<Longrightarrow> isNumber a \<and> isNumber b \<and> isNumber c \<and> isNumber d"
  by (induction s) (auto split: option.splits dest: filterHeaderAt_numbers)

lemma hunkHeader_no_newline: "isNumber b \<Longrightarrow> CHR 0x0A \<notin> set (hunkHeader a b c d)"
  using number_no_newline [of b]
  by (simp add: hunkHeader_def isNumber_def numToString_no_newline)

lemma hunkHeader_starts: "startsWith (hunkHeader a b c d) ''@@''"
  by (simp add: hunkHeader_def startsWith_def)

lemma processHunk_cases:
  assumes "hunk \<noteq> []"
  obtains "processHunk hunk k = hunk"
  | a b c d where "isNumber b" "processHunk hunk k = hunkHeader a b c d # tl hunk"
proof (cases "headerMatch (hd hunk)")
  case None
  then show ?thesis using that(1) by (simp add: processHunk_def)
next
  case (Some m)
  obtain a b c d where m: "m = (a, b, c, d)" by (cases m) auto
  with Some have "isNumber b" by (auto dest: headerMatch_numbers)
  then show ?thesis using that(2) Some m by (simp add: processHunk_def)
qed


section \<open>What the matchers accept\<close>

text \<open>
  Each matcher succeeds exactly on the strings that start with a word of its pattern, and
  returns the groups of that word.
\<close>

lemma lit_SomeD: "lit p s = Some r \<Longrightarrow> s = p @ r"
  by (auto simp: lit_def prefix_def split: if_splits)

lemma digits1_SomeD: "digits1 s = Some (ds, r) \<Longrightarrow> s = ds @ r"
  by (auto simp: digits1_def split: if_splits)

lemma filterHeaderAt_SomeD:
  assumes "filterHeaderAt s = Some (a, b, c, d)"
  shows "\<exists>t. s = ''@@ -'' @ a @ '','' @ b @ '' +'' @ c @ '','' @ d @ '' @@'' @ t"
proof -
  from assms obtain r1 r2 r3 r4 r5 r6 r7 r8 r9 where
    "lit ''@@ -'' s = Some r1" "digits1 r1 = Some (a, r2)" "lit '','' r2 = Some r3"
    "digits1 r3 = Some (b, r4)" "lit '' +'' r4 = Some r5" "digits1 r5 = Some (c, r6)"
    "lit '','' r6 = Some r7" "digits1 r7 = Some (d, r8)" "lit '' @@'' r8 = Some r9"
    by (auto simp: filterHeaderAt_def split: bind_splits)
  then have "s = ''@@ -'' @ a @ '','' @ b @ '' +'' @ c @ '','' @ d @ '' @@'' @ r9"
    by (auto dest!: lit_SomeD digits1_SomeD)
  then show ?thesis by blast
qed

lemma filterHeaderAt_iff:
  "filterHeaderAt s = Some (a, b, c, d) \<longleftrightarrow>
   isNumber a \<and> isNumber b \<and> isNumber c \<and> isNumber d \<and>
   (\<exists>t. s = ''@@ -'' @ a @ '','' @ b @ '' +'' @ c @ '','' @ d @ '' @@'' @ t)"
  using filterHeaderAt_SomeD filterHeaderAt_numbers filterHeaderAt_canonical by blast

lemma optCount_SomeD: "\<exists>oc. isOptCount oc \<and> s = oc @ optCount s"
proof (cases "lit '','' s")
  case None
  then have "optCount s = s" by (simp add: optCount_def)
  then show ?thesis by (intro exI [of _ "[]"]) (simp add: isOptCount_iff)
next
  case (Some r)
  show ?thesis
  proof (cases "digits1 r")
    case None
    with Some have "optCount s = s" by (simp add: optCount_def)
    then show ?thesis by (intro exI [of _ "[]"]) (simp add: isOptCount_iff)
  next
    case (Some p)
    obtain b r' where p: "p = (b, r')" by (cases p)
    with Some \<open>lit '','' s = Some r\<close> have o: "optCount s = r'" by (simp add: optCount_def)
    have "s = '','' @ b @ r'"
      using \<open>lit '','' s = Some r\<close> Some p by (auto dest!: lit_SomeD digits1_SomeD)
    moreover have "isNumber b" using Some p by (auto dest: digits1_isNumber)
    ultimately show ?thesis
      unfolding o by (intro exI [of _ "CHR '','' # b"]) (simp add: isOptCount_iff)
  qed
qed

lemma parseHeaderAt_SomeD:
  assumes "parseHeaderAt s = Some c"
  shows "\<exists>a oc nc t. isNumber a \<and> isOptCount oc \<and> isNumber c \<and> isOptCount nc \<and>
           s = ''@@ -'' @ a @ oc @ '' +'' @ c @ nc @ '' @@'' @ t"
proof -
  from assms obtain r1 a r2 r3 r4 r5 where f:
    "lit ''@@ -'' s = Some r1" "digits1 r1 = Some (a, r2)" "lit '' +'' (optCount r2) = Some r3"
    "digits1 r3 = Some (c, r4)" "lit '' @@'' (optCount r4) = Some r5"
    by (auto simp: parseHeaderAt_def split: bind_splits)
  obtain oc where oc: "isOptCount oc" "r2 = oc @ optCount r2" using optCount_SomeD by blast
  obtain nc where nc: "isOptCount nc" "r4 = nc @ optCount r4" using optCount_SomeD by blast
  have "s = ''@@ -'' @ r1" using f(1) by (auto dest!: lit_SomeD)
  also have "r1 = a @ r2" using f(2) by (rule digits1_SomeD)
  also have "r2 = oc @ '' +'' @ r3" using oc(2) f(3) by (auto dest!: lit_SomeD)
  also have "r3 = c @ r4" using f(4) by (rule digits1_SomeD)
  also have "r4 = nc @ '' @@'' @ r5" using nc(2) f(5) by (auto dest!: lit_SomeD)
  finally have "s = ''@@ -'' @ a @ oc @ '' +'' @ c @ nc @ '' @@'' @ r5" by simp
  moreover have "isNumber a" "isNumber c" using f(2,4) by (auto dest: digits1_isNumber)
  ultimately show ?thesis using oc(1) nc(1) by blast
qed

lemma parseHeaderAt_iff:
  "parseHeaderAt s = Some c \<longleftrightarrow>
   (\<exists>a oc nc t. isNumber a \<and> isOptCount oc \<and> isNumber c \<and> isOptCount nc \<and>
      s = ''@@ -'' @ a @ oc @ '' +'' @ c @ nc @ '' @@'' @ t)"
  using parseHeaderAt_SomeD parseHeaderAt_canonical by blast

lemma isOptCount_count: "isNumber b \<Longrightarrow> isOptCount (CHR '','' # b)"
  by (simp add: isOptCount_iff)

lemma parseHeaderAt_of_filterHeaderAt:
  assumes "filterHeaderAt s = Some (a, b, c, d)"
  shows "parseHeaderAt s = Some c"
proof -
  from assms obtain t where n: "isNumber a" "isNumber b" "isNumber c" "isNumber d"
    and s: "s = ''@@ -'' @ a @ '','' @ b @ '' +'' @ c @ '','' @ d @ '' @@'' @ t"
    unfolding filterHeaderAt_iff by blast
  have "parseHeaderAt (''@@ -'' @ a @ (CHR '','' # b) @ '' +'' @ c @ (CHR '','' # d) @ '' @@'' @ t) = Some c"
    using n by (intro parseHeaderAt_canonical isOptCount_count)
  then show ?thesis by (simp add: s)
qed

lemma isAddedLine_iff: "isAddedLine l \<longleftrightarrow> startsWith l ''+'' \<and> \<not> startsWith l ''+++ ''"
  by (auto simp: isAddedLine_def isFileHeader_def startsWith_def prefix_def)

lemma headerMatch_starts:
  assumes "isNumber a" "isNumber b" "isNumber c" "isNumber d"
    and "headerMatch (''@@ -'' @ a @ '','' @ b @ '' +'' @ c @ '','' @ d @ '' @@'' @ t) = Some (a', b', c', d')"
  shows "a' = a \<and> b' = b \<and> c' = c \<and> d' = d"
  using headerMatch_at [OF filterHeaderAt_canonical [OF assms(1-4), of t]] assms(5) by simp

section \<open>Added lines of the output\<close>

lemma file_header_not_added: "isFileHeader l \<Longrightarrow> \<not> isAddedLine l"
  by (simp add: isAddedLine_def)

lemma hunk_header_not_addedLine: "startsWith l ''@@'' \<Longrightarrow> \<not> isAddedLine l"
  by (simp add: isAddedLine_def hunk_header_not_added)

text \<open>The head of a processed hunk is a hunk header again, and its tail is unchanged.\<close>

lemma processHunk_head:
  assumes "hunk \<noteq> []" "startsWith (hd hunk) ''@@''"
  obtains h' where "processHunk hunk k = h' # tl hunk" "startsWith h' ''@@''"
  using assms processHunk_cases [OF assms(1), of k] hunkHeader_starts
  by (metis list.collapse)

lemma added_processHunk:
  assumes "hunk \<noteq> []" "startsWith (hd hunk) ''@@''"
  shows "filter isAddedLine (processHunk hunk k) = filter isAddedLine (tl hunk)"
proof -
  obtain h' where "processHunk hunk k = h' # tl hunk" "startsWith h' ''@@''"
    using assms by (rule processHunk_head)
  then show ?thesis by (simp add: hunk_header_not_addedLine)
qed

text \<open>The added lines a state holds, in the order they will be written.\<close>

lemma added_flushHunk:
  assumes "currentHunk st \<noteq> []" "startsWith (hd (currentHunk st)) ''@@''"
  shows "filter isAddedLine (flushHunk st) =
         filter isAddedLine (filteredLines st) @ filter isAddedLine (tl (currentHunk st))"
  using assms by (simp add: flushHunk_def added_processHunk)

lemma added_filterStep:
  assumes "currentHunk st \<noteq> []" "startsWith (hd (currentHunk st)) ''@@''"
  shows "currentHunk (filterStep rules st l) \<noteq> [] \<and>
         startsWith (hd (currentHunk (filterStep rules st l))) ''@@'' \<and>
         filter isAddedLine (flushHunk (filterStep rules st l)) =
         filter isAddedLine (flushHunk st) @
         filter (\<lambda>l. \<not> shouldFilter rules l) (filter isAddedLine [l])"
proof (cases "isFileHeader l")
  case True
  then have s: "filterStep rules st l = st\<lparr>filteredLines := filteredLines st @ [l]\<rparr>"
    by (simp add: filterStep_def)
  show ?thesis
    unfolding s using assms True by (simp add: flushHunk_def file_header_not_added)
next
  case nh: False
  show ?thesis
  proof (cases "startsWith l ''@@''")
    case True
    then have s: "filterStep rules st l =
        \<lparr>filteredLines = flushHunk st, currentHunk = [l], skippedLines = 0\<rparr>"
      by (rule filterStep_hunk_header)
    have "filter isAddedLine (processHunk [l] 0) = []"
      using added_processHunk [of "[l]" 0] True by simp
    then show ?thesis
      unfolding s using True by (simp add: flushHunk_def hunk_header_not_addedLine)
  next
    case na: False
    show ?thesis
    proof (cases "startsWith l ''+'' \<and> shouldFilter rules l")
      case True
      then have s: "filterStep rules st l = st\<lparr>skippedLines := skippedLines st + 1\<rparr>"
        using nh na assms(1) by (simp add: filterStep_def)
      show ?thesis
        unfolding s using assms True nh
        by (simp add: flushHunk_def added_processHunk isAddedLine_def)
    next
      case False
      then have s: "filterStep rules st l = st\<lparr>currentHunk := currentHunk st @ [l]\<rparr>"
        using nh na assms(1) by (auto simp: filterStep_def)
      show ?thesis
        unfolding s using assms False nh
        by (auto simp: flushHunk_def processHunk_snoc isAddedLine_def)
    qed
  qed
qed

lemma added_foldl_filterStep:
  assumes "currentHunk st \<noteq> []" "startsWith (hd (currentHunk st)) ''@@''"
  shows "filter isAddedLine (flushHunk (foldl (filterStep rules) st ls)) =
         filter isAddedLine (flushHunk st) @
         filter (\<lambda>l. \<not> shouldFilter rules l) (filter isAddedLine ls)"
  using assms
proof (induction ls arbitrary: st)
  case Nil
  show ?case by simp
next
  case (Cons l ls)
  note step = added_filterStep [OF Cons.prems, of rules l]
  have "filter isAddedLine (flushHunk (foldl (filterStep rules) (filterStep rules st l) ls)) =
        filter isAddedLine (flushHunk (filterStep rules st l)) @
        filter (\<lambda>l. \<not> shouldFilter rules l) (filter isAddedLine ls)"
    using step by (intro Cons.IH) simp_all
  then show ?case using step by simp
qed

lemma added_filterLines_hunks:
  assumes "startsWith h ''@@''"
  shows "filter isAddedLine (filterLines rules (h # ls)) =
         filter (\<lambda>l. \<not> shouldFilter rules l) (filter isAddedLine (h # ls))"
proof -
  let ?s0 = "\<lparr>filteredLines = [], currentHunk = [h], skippedLines = 0\<rparr>"
  have "filterLines rules (h # ls) = flushHunk (foldl (filterStep rules) ?s0 ls)"
    using assms by (simp add: filterLines_def filterStep_hunk_header flushHunk_init)
  moreover have "filter isAddedLine (flushHunk ?s0) = []"
    using added_flushHunk [of ?s0] assms by simp
  ultimately show ?thesis
    using added_foldl_filterStep [of ?s0 rules ls] assms
    by (simp add: hunk_header_not_addedLine)
qed

text \<open>
  In front of the first hunk header the output holds file-header lines only, so its added
  body lines are all its added lines.
\<close>

lemma addedBodyLines_append:
  assumes "\<forall>l\<in>set xs. \<not> isAddedLine l" and "ys = [] \<or> startsWith (hd ys) ''@@''"
  shows "addedBodyLines (xs @ ys) = filter isAddedLine ys"
  using assms
proof (induction xs)
  case Nil
  then show ?case by (cases ys) (auto simp: addedBodyLines_def)
next
  case (Cons x xs)
  then have ih: "addedBodyLines (xs @ ys) = filter isAddedLine ys" by simp
  have nx: "filter isAddedLine (x # xs) = []" using Cons.prems(1) by simp
  show ?case
  proof (cases "startsWith x ''@@''")
    case True
    then have "addedBodyLines ((x # xs) @ ys) = filter isAddedLine (x # xs) @ filter isAddedLine ys"
      by (simp add: addedBodyLines_def)
    then show ?thesis by (simp only: nx append_Nil)
  next
    case False
    then have "addedBodyLines ((x # xs) @ ys) = addedBodyLines (xs @ ys)"
      by (simp add: addedBodyLines_def)
    then show ?thesis using ih by simp
  qed
qed

lemma filterLines_first_hunk:
  assumes "startsWith h ''@@''"
  obtains xs ys where "filterLines rules (h # ls) = xs @ ys" "\<forall>l\<in>set xs. isFileHeader l"
    "ys \<noteq> []" "startsWith (hd ys) ''@@''"
proof -
  let ?P = "\<lambda>l. \<not> startsWith l ''@@''"
  let ?body = "takeWhile ?P ls" and ?rest = "dropWhile ?P ls"
  have b: "\<forall>l\<in>set ?body. \<not> startsWith l ''@@''" by (auto dest: set_takeWhileD)
  have r: "?rest = [] \<or> startsWith (hd ?rest) ''@@''"
    using hd_dropWhile [of ?P ls] by auto
  have "filterLines rules ([] @ h # ?body @ ?rest) =
        filterLines rules [] @ filter isFileHeader ?body @
        processHunk (h # keptLines rules ?body) (length (droppedLines rules ?body)) @
        filterLines rules ?rest"
    using assms b r by (rule filterLines_hunk)
  then have e: "filterLines rules (h # ls) = filter isFileHeader ?body @
        (processHunk (h # keptLines rules ?body) (length (droppedLines rules ?body)) @
         filterLines rules ?rest)"
    by (simp add: filterLines_Nil)
  obtain h' where h': "processHunk (h # keptLines rules ?body) (length (droppedLines rules ?body)) =
      h' # tl (h # keptLines rules ?body)" "startsWith h' ''@@''"
    using processHunk_head [of "h # keptLines rules ?body"] assms by auto
  show ?thesis
    by (rule that [OF e]) (simp_all add: h')
qed

lemma addedBodyLines_filterLines:
  "addedBodyLines (filterLines rules ls) =
   filter (\<lambda>l. \<not> shouldFilter rules l) (addedBodyLines ls)"
proof -
  let ?P = "\<lambda>l. \<not> startsWith l ''@@''"
  let ?pre = "takeWhile ?P ls" and ?rest = "dropWhile ?P ls"
  have p: "\<forall>l\<in>set ?pre. \<not> startsWith l ''@@''" by (auto dest: set_takeWhileD)
  have r: "?rest = [] \<or> startsWith (hd ?rest) ''@@''"
    using hd_dropWhile [of ?P ls] by auto
  have "filterLines rules (?pre @ ?rest) = filterLines rules ?pre @ filterLines rules ?rest"
    using r by (rule filterLines_cut)
  moreover have "filterLines rules ?pre = filter isFileHeader ?pre"
    using foldl_filterStep_preamble [OF p, of filterInit rules]
    by (simp add: filterLines_def filterInit_def flushHunk_def)
  ultimately have e: "filterLines rules ls = filter isFileHeader ?pre @ filterLines rules ?rest"
    by simp
  show ?thesis
  proof (cases ?rest)
    case Nil
    have "addedBodyLines (filter isFileHeader ?pre @ []) = filter isAddedLine []"
      by (intro addedBodyLines_append) (auto simp: file_header_not_added)
    moreover have "filterLines rules ls = filter isFileHeader ?pre @ []"
      using e Nil by (simp add: filterLines_Nil)
    moreover have "addedBodyLines ls = []"
      unfolding addedBodyLines_def Nil by simp
    ultimately show ?thesis by simp
  next
    case (Cons h r')
    with r have h: "startsWith h ''@@''" by simp
    obtain xs ys where o: "filterLines rules (h # r') = xs @ ys" "\<forall>l\<in>set xs. isFileHeader l"
      "ys \<noteq> []" "startsWith (hd ys) ''@@''"
      using h by (rule filterLines_first_hunk)
    have "addedBodyLines (filterLines rules ls) = addedBodyLines ((filter isFileHeader ?pre @ xs) @ ys)"
      unfolding e Cons o(1) by simp
    also have "\<dots> = filter isAddedLine ys"
      using o(2,4) by (intro addedBodyLines_append) (auto simp: file_header_not_added)
    also have "\<dots> = filter isAddedLine (filterLines rules (h # r'))"
      unfolding o(1) using o(2) by (simp add: file_header_not_added)
    also have "\<dots> = filter (\<lambda>l. \<not> shouldFilter rules l) (filter isAddedLine (h # r'))"
      using h by (rule added_filterLines_hunks)
    finally show ?thesis by (simp add: addedBodyLines_def Cons)
  qed
qed

lemma added_filterLines_all:
  "filter isAddedLine (filterLines rules ls) = addedBodyLines (filterLines rules ls)"
proof -
  let ?P = "\<lambda>l. \<not> startsWith l ''@@''"
  let ?pre = "takeWhile ?P ls" and ?rest = "dropWhile ?P ls"
  have p: "\<forall>l\<in>set ?pre. \<not> startsWith l ''@@''" by (auto dest: set_takeWhileD)
  have r: "?rest = [] \<or> startsWith (hd ?rest) ''@@''"
    using hd_dropWhile [of ?P ls] by auto
  have "filterLines rules (?pre @ ?rest) = filterLines rules ?pre @ filterLines rules ?rest"
    using r by (rule filterLines_cut)
  moreover have "filterLines rules ?pre = filter isFileHeader ?pre"
    using foldl_filterStep_preamble [OF p, of filterInit rules]
    by (simp add: filterLines_def filterInit_def flushHunk_def)
  ultimately have e: "filterLines rules ls = filter isFileHeader ?pre @ filterLines rules ?rest"
    by simp
  obtain xs ys where o: "filterLines rules ?rest = xs @ ys" "\<forall>l\<in>set xs. isFileHeader l"
    "ys = [] \<or> startsWith (hd ys) ''@@''"
  proof (cases ?rest)
    case Nil
    have "filterLines rules ?rest = [] @ []" unfolding Nil by (simp add: filterLines_Nil)
    then show ?thesis by (rule that) simp_all
  next
    case (Cons h r')
    with r have "startsWith h ''@@''" by simp
    then obtain xs ys where "filterLines rules (h # r') = xs @ ys" "\<forall>l\<in>set xs. isFileHeader l"
      "ys \<noteq> []" "startsWith (hd ys) ''@@''"
      by (rule filterLines_first_hunk)
    then show ?thesis using that Cons by simp
  qed
  have "addedBodyLines ((filter isFileHeader ?pre @ xs) @ ys) = filter isAddedLine ys"
    using o(2,3) by (intro addedBodyLines_append) (auto simp: file_header_not_added)
  moreover have "filter isAddedLine ((filter isFileHeader ?pre @ xs) @ ys) = filter isAddedLine ys"
    using o(2) by (simp add: file_header_not_added)
  ultimately show ?thesis unfolding e o(1) by simp
qed

lemma length_addedBodyLines_le: "length (addedBodyLines ls) \<le> length (filter isAddedLine ls)"
proof -
  have "filter isAddedLine ls =
        filter isAddedLine (takeWhile (\<lambda>l. \<not> startsWith l ''@@'') ls) @ addedBodyLines ls"
    unfolding addedBodyLines_def by (simp flip: filter_append)
  then show ?thesis by simp
qed

section \<open>Line breaks, and the filter without rules\<close>

text \<open>
  No line of the output holds a line break, so splitting the joined output gives its lines
  back. Without rules, a hunk whose header the filter would rewrite to itself is written
  as it was read.
\<close>

lemma processHunk_no_newline:
  assumes "hunk \<noteq> []" "\<forall>l\<in>set hunk. CHR 0x0A \<notin> set l"
  shows "\<forall>l\<in>set (processHunk hunk k). CHR 0x0A \<notin> set l"
  using assms(1)
proof (cases rule: processHunk_cases [of hunk k])
  case 1
  then show ?thesis using assms(2) by simp
next
  case (2 a b c d)
  have "\<forall>l\<in>set (tl hunk). CHR 0x0A \<notin> set l"
    using assms by (meson list.set_sel(2))
  then show ?thesis using 2 by (simp add: hunkHeader_no_newline)
qed

lemma flushHunk_no_newline:
  assumes "\<forall>l\<in>set (filteredLines st) \<union> set (currentHunk st). CHR 0x0A \<notin> set l"
  shows "\<forall>l\<in>set (flushHunk st). CHR 0x0A \<notin> set l"
proof (cases "currentHunk st = []")
  case True
  then show ?thesis using assms by (simp add: flushHunk_def)
next
  case False
  then have "\<forall>l\<in>set (processHunk (currentHunk st) (skippedLines st)). CHR 0x0A \<notin> set l"
    using assms by (intro processHunk_no_newline) auto
  then show ?thesis using assms False by (auto simp: flushHunk_def)
qed

lemma filterStep_no_newline:
  assumes "\<forall>l\<in>set (filteredLines st) \<union> set (currentHunk st). CHR 0x0A \<notin> set l"
    and "CHR 0x0A \<notin> set line"
  shows "\<forall>l\<in>set (filteredLines (filterStep rules st line)) \<union>
            set (currentHunk (filterStep rules st line)). CHR 0x0A \<notin> set l"
  using assms flushHunk_no_newline [OF assms(1)] by (auto simp: filterStep_def)

lemma foldl_filterStep_no_newline:
  assumes "\<forall>l\<in>set (filteredLines st) \<union> set (currentHunk st). CHR 0x0A \<notin> set l"
    and "\<forall>l\<in>set ls. CHR 0x0A \<notin> set l"
  shows "\<forall>l\<in>set (filteredLines (foldl (filterStep rules) st ls)) \<union>
            set (currentHunk (foldl (filterStep rules) st ls)). CHR 0x0A \<notin> set l"
  using assms
proof (induction ls arbitrary: st)
  case Nil
  then show ?case by simp
next
  case (Cons l ls)
  have "\<forall>x\<in>set (filteredLines (filterStep rules st l)) \<union>
            set (currentHunk (filterStep rules st l)). CHR 0x0A \<notin> set x"
    using Cons.prems by (intro filterStep_no_newline) simp_all
  then show ?case using Cons.prems(2) by (simp only: foldl_Cons) (intro Cons.IH, simp_all)
qed

lemma filterLines_no_newline:
  assumes "\<forall>l\<in>set ls. CHR 0x0A \<notin> set l"
  shows "\<forall>l\<in>set (filterLines rules ls). CHR 0x0A \<notin> set l"
  unfolding filterLines_def
  by (intro flushHunk_no_newline foldl_filterStep_no_newline assms) (simp add: filterInit_def)

lemma addedBodyLines_split_join:
  assumes "\<forall>l\<in>set ls. CHR 0x0A \<notin> set l"
  shows "addedBodyLines (split_nl (join_nl ls)) = addedBodyLines ls"
proof (cases "ls = []")
  case True
  then show ?thesis by (simp add: addedBodyLines_def isAddedLine_def startsWith_def)
next
  case False
  then show ?thesis using assms by (simp add: split_join_nl)
qed

lemma addedBodyLines_createFilteredPatch:
  "addedBodyLines (split_nl (createFilteredPatch rules diff)) =
   filter (\<lambda>l. \<not> shouldFilter rules l) (addedBodyLines (split_nl diff))"
proof -
  have "\<forall>l\<in>set (split_nl diff). CHR 0x0A \<notin> set l" by (auto dest: split_nl_lines)
  then have "\<forall>l\<in>set (filterLines rules (split_nl diff)). CHR 0x0A \<notin> set l"
    by (rule filterLines_no_newline)
  then show ?thesis
    by (simp add: createFilteredPatch_def addedBodyLines_split_join addedBodyLines_filterLines)
qed

lemma added_split_join:
  assumes "\<forall>l\<in>set ls. CHR 0x0A \<notin> set l"
  shows "filter isAddedLine (split_nl (join_nl ls)) = filter isAddedLine ls"
proof (cases "ls = []")
  case True
  then show ?thesis by (simp add: isAddedLine_def startsWith_def)
next
  case False
  then show ?thesis using assms by (simp add: split_join_nl)
qed

lemma added_createFilteredPatch:
  "filter isAddedLine (split_nl (createFilteredPatch rules diff)) =
   addedBodyLines (split_nl (createFilteredPatch rules diff))"
proof -
  have "\<forall>l\<in>set (split_nl diff). CHR 0x0A \<notin> set l" by (auto dest: split_nl_lines)
  then have "\<forall>l\<in>set (filterLines rules (split_nl diff)). CHR 0x0A \<notin> set l"
    by (rule filterLines_no_newline)
  then show ?thesis
    by (simp add: createFilteredPatch_def addedBodyLines_split_join added_split_join
        added_filterLines_all)
qed

lemma length_filter_eq_iff: "length (filter P xs) = length xs \<longleftrightarrow> (\<forall>x\<in>set xs. P x)"
proof (induction xs)
  case Nil
  show ?case by simp
next
  case (Cons x xs)
  have le: "length (filter P xs) \<le> length xs" by (rule length_filter_le)
  show ?case
  proof (cases "P x")
    case True
    with Cons show ?thesis by simp
  next
    case False
    then have "length (filter P (x # xs)) = length (filter P xs)" by simp
    with le have "length (filter P (x # xs)) \<noteq> length (x # xs)" by (simp del: length_filter_le)
    with False show ?thesis by auto
  qed
qed

lemma headerMatch_canonicalHeader:
  assumes "isNumber b" "0 \<le> d"
  shows "headerMatch (canonicalHeader a b c d) = Some (decimalNat a, b, decimalNat c, decimalNat d)"
proof -
  have "filterHeaderAt (''@@ -'' @ decimalNat a @ '','' @ b @ '' +'' @ decimalNat c @ '','' @
          decimalNat d @ '' @@'' @ []) =
        Some (decimalNat a, b, decimalNat c, decimalNat d)"
    using assms(1) by (intro filterHeaderAt_canonical isNumber_decimalNat)
  then show ?thesis
    using assms(2) by (intro headerMatch_at) (simp add: canonicalHeader_def decimalInt_def)
qed

lemma hunkHeader_exact:
  assumes "0 \<le> a" "a < 2 ^ 53" "0 \<le> c" "c < 2 ^ 53" "- (2 ^ 53) < d" "d < 2 ^ 53"
  shows "hunkHeader (Num a) b (Num c) (Num d) = canonicalHeader a b c d"
  using assms by (simp add: hunkHeader_def canonicalHeader_def numToString_exact decimalInt_def)

lemma processHunk_stable:
  assumes "headerMatch l = None \<or>
           (\<exists>a b c d. isNumber b \<and> 0 \<le> a \<and> a < 2 ^ 53 \<and> 0 \<le> c \<and> c < 2 ^ 53 \<and>
              0 \<le> d \<and> d < 2 ^ 53 \<and> l = canonicalHeader a b c d)"
  shows "processHunk (l # t) 0 = l # t"
  using assms
proof
  assume "headerMatch l = None"
  then show ?thesis by (simp add: processHunk_def)
next
  assume "\<exists>a b c d. isNumber b \<and> 0 \<le> a \<and> a < 2 ^ 53 \<and> 0 \<le> c \<and> c < 2 ^ 53 \<and>
              0 \<le> d \<and> d < 2 ^ 53 \<and> l = canonicalHeader a b c d"
  then obtain a b c d where l: "isNumber b" "0 \<le> a" "a < 2 ^ 53" "0 \<le> c" "c < 2 ^ 53"
    "0 \<le> d" "d < 2 ^ 53" "l = canonicalHeader a b c d" by blast
  have m: "headerMatch l = Some (decimalNat a, b, decimalNat c, decimalNat d)"
    unfolding l(8) using l(1,6) by (rule headerMatch_canonicalHeader)
  have "minusCount (parseInt (decimalNat d)) 0 = Num d"
    using l(6,7) by (simp add: parseInt_decimalNat minusCount_exact)
  then have "processHunk (l # t) 0 = hunkHeader (Num a) b (Num c) (Num d) # t"
    using m l(2-5) by (simp add: processHunk_def parseInt_decimalNat)
  also have "hunkHeader (Num a) b (Num c) (Num d) = l"
    unfolding l(8) using l(2-7) by (intro hunkHeader_exact) simp_all
  finally show ?thesis .
qed

lemma shouldFilter_no_rules: "\<not> shouldFilter [] l"
  by (simp add: shouldFilter_def)

lemma foldl_filterStep_no_rules:
  assumes "currentHunk st \<noteq> []" "skippedLines st = 0"
    and "processHunk (currentHunk st) 0 = currentHunk st"
    and "\<forall>l\<in>set ls. \<not> isFileHeader l"
    and "\<forall>l\<in>set ls. startsWith l ''@@'' \<longrightarrow> processHunk [l] 0 = [l]"
  shows "flushHunk (foldl (filterStep []) st ls) = flushHunk st @ ls"
  using assms
proof (induction ls arbitrary: st)
  case Nil
  show ?case by simp
next
  case (Cons l ls)
  define st' where "st' = filterStep [] st l"
  have nh: "\<not> isFileHeader l" using Cons.prems(4) by simp
  have st': "currentHunk st' \<noteq> [] \<and> skippedLines st' = 0 \<and>
             processHunk (currentHunk st') 0 = currentHunk st' \<and>
             flushHunk st' = flushHunk st @ [l]"
  proof (cases "startsWith l ''@@''")
    case True
    then have "st' = \<lparr>filteredLines = flushHunk st, currentHunk = [l], skippedLines = 0\<rparr>"
      unfolding st'_def by (rule filterStep_hunk_header)
    moreover have "processHunk [l] 0 = [l]" using True Cons.prems(5) by simp
    ultimately show ?thesis by (simp add: flushHunk_def)
  next
    case False
    then have "st' = st\<lparr>currentHunk := currentHunk st @ [l]\<rparr>"
      unfolding st'_def using nh Cons.prems(1) by (simp add: filterStep_def shouldFilter_no_rules)
    then show ?thesis
      using Cons.prems(1,2,3) by (simp add: flushHunk_def processHunk_snoc)
  qed
  have "flushHunk (foldl (filterStep []) st' ls) = flushHunk st' @ ls"
    using st' Cons.prems(4,5) by (intro Cons.IH) simp_all
  then show ?case using st' by (simp add: st'_def)
qed

section \<open>The no-newline marker\<close>












lemma newSideCount_append: "newSideCount (xs @ ys) = newSideCount xs + newSideCount ys"
  by (simp add: newSideCount_def)

lemma newSideCount_take_less:
  assumes "i < j" "j \<le> length es" "lineType (es ! i) \<noteq> Removed"
  shows "newSideCount (take i es) < newSideCount (take j es)"
proof -
  from assms have i: "i < length es" by simp
  from assms(1) obtain k where k: "j = Suc i + k" by (metis less_iff_Suc_add add_Suc)
  have "take j es = take (Suc i) es @ take k (drop (Suc i) es)"
    unfolding k by (rule take_add)
  also have "take (Suc i) es = take i es @ [es ! i]"
    using i by (rule take_Suc_conv_app_nth)
  finally have "take j es = take i es @ [es ! i] @ take k (drop (Suc i) es)"
    by simp
  then have "newSideCount (take j es) =
      newSideCount (take i es) + newSideCount [es ! i] + newSideCount (take k (drop (Suc i) es))"
    by (simp only: newSideCount_append)
  moreover have "newSideCount [es ! i] = 1" using assms(3) by (simp add: newSideCount_def)
  ultimately show ?thesis by simp
qed

lemma processHunk_exact:
  assumes "headerMatch h = Some (a, b, c, d)"
    and "digitsValue a < 2 ^ 53" "digitsValue c < 2 ^ 53" "digitsValue d < 2 ^ 53"
    and "int k < 2 ^ 53"
  shows "processHunk (h # body) k =
         canonicalHeader (digitsValue a) b (digitsValue c) (digitsValue d - int k) # body"
proof -
  from assms(1) have n: "isNumber a" "isNumber b" "isNumber c" "isNumber d"
    by (auto dest: headerMatch_numbers)
  have nn: "0 \<le> digitsValue a" "0 \<le> digitsValue c" "0 \<le> digitsValue d"
    using n by (simp_all add: isNumber_def digitsValue_nonneg)
  have p: "parseInt a = Num (digitsValue a)" "parseInt c = Num (digitsValue c)"
    "parseInt d = Num (digitsValue d)"
    using n assms(2-4) by (simp_all add: parseInt_exact)
  have m: "minusCount (Num (digitsValue d)) k = Num (digitsValue d - int k)"
    using nn(3) assms(4,5) by (rule minusCount_exact)
  have "hunkHeader (Num (digitsValue a)) b (Num (digitsValue c)) (Num (digitsValue d - int k)) =
        canonicalHeader (digitsValue a) b (digitsValue c) (digitsValue d - int k)"
    using nn assms(2-5) by (intro hunkHeader_exact) simp_all
  then show ?thesis
    using assms(1) by (simp add: processHunk_matched p m)
qed

section \<open>The claims\<close>

text \<open>
  Claim C1, as amended. Take a hunk whose header line \<open>h\<close> starts with \<open>@@\<close> and matches
  the pattern \<^verbatim>\<open>@@ -a,b +c,d @@\<close> with \<open>a\<close>, \<open>c\<close> and \<open>d\<close> below \<open>2^53\<close>, and its body (the
  lines up to the next hunk header or the end of the input, fewer than \<open>2^53\<close>). The filter
  emits for it the header \<^verbatim>\<open>@@ -a,b +c,d' @@\<close> where \<open>a\<close>, \<open>b\<close> and \<open>c\<close> are those of \<open>h\<close>
  and \<open>d'\<close> is \<open>d\<close> minus the number of added lines of the body whose content, without
  the prefix and trimmed, matches at least one rule; the header is followed by the body
  lines that were kept. Lines of the body that start with one of the four file-header
  prefixes are moved in front of the header. The hunk of the specification's example is
  the instance that follows the theorem. The claim as stated fails on a header whose
  \<open>oldStart\<close> is \<open>2^53 + 1\<close>, which no double holds.
\<close>

theorem filtered_hunk_header:
  assumes "startsWith h ''@@''" and "headerMatch h = Some (a, b, c, d)"
    and "digitsValue a < 2 ^ 53" and "digitsValue c < 2 ^ 53" and "digitsValue d < 2 ^ 53"
    and "\<forall>l\<in>set body. \<not> startsWith l ''@@''" and "int (length body) < 2 ^ 53"
    and "rest = [] \<or> startsWith (hd rest) ''@@''"
  shows "filterLines rules (pre @ h # body @ rest) =
         filterLines rules pre @ filter isFileHeader body @
         canonicalHeader (digitsValue a) b (digitsValue c)
           (digitsValue d - int (length (droppedLines rules body))) #
         keptLines rules body @ filterLines rules rest"
proof -
  have "length (droppedLines rules body) \<le> length body"
    unfolding droppedLines_def by (rule length_filter_le)
  then have k: "int (length (droppedLines rules body)) < 2 ^ 53"
    using assms(7) by linarith
  show ?thesis
    using filterLines_hunk [OF assms(1,6,8), of rules pre]
    by (simp add: processHunk_exact [OF assms(2-5) k])
qed

theorem filtered_hunk_header_example:
  "createFilteredPatch [rule_console]
     (join_nl [''@@ -10,3 +10,4 @@'', '' ctx1'', ''+console.log('x')'', ''+keep()'', '' ctx2'']) =
   join_nl [''@@ -10,3 +10,3 @@'', '' ctx1'', ''+keep()'', '' ctx2'']"
proof -
  let ?h = "''@@ -10,3 +10,4 @@''"
  let ?body = "['' ctx1'', ''+console.log('x')'', ''+keep()'', '' ctx2'']"
  have 1: "startsWith ?h ''@@''" by code_simp
  have 2: "headerMatch ?h = Some (''10'', ''3'', ''10'', ''4'')" by code_simp
  have 3: "digitsValue ''10'' < 2 ^ 53" by code_simp
  have 4: "digitsValue ''4'' < 2 ^ 53" by code_simp
  have 5: "\<forall>l\<in>set ?body. \<not> startsWith l ''@@''" by code_simp
  have 6: "int (length ?body) < 2 ^ 53" by simp
  have 7: "([]::string list) = [] \<or> startsWith (hd []) ''@@''" by simp
  have s: "split_nl (join_nl (?h # ?body)) = [] @ ?h # ?body @ []" by code_simp
  have r: "filterLines [rule_console] [] @ filter isFileHeader ?body @
         canonicalHeader (digitsValue ''10'') ''3'' (digitsValue ''10'')
           (digitsValue ''4'' - int (length (droppedLines [rule_console] ?body))) #
         keptLines [rule_console] ?body @ filterLines [rule_console] [] =
         [''@@ -10,3 +10,3 @@'', '' ctx1'', ''+keep()'', '' ctx2'']" by code_simp
  show ?thesis
    unfolding createFilteredPatch_def s
    by (simp only: filtered_hunk_header [OF 1 2 3 3 4 5 6 7, of "[rule_console]" "[]"] r)
qed

theorem oldStart_counterexample:
  "headerMatch ''@@ -9007199254740993,1 +1,1 @@'' = Some (''9007199254740993'', ''1'', ''1'', ''1'') \<and>
   createFilteredPatch [rule_console] ''@@ -9007199254740993,1 +1,1 @@\<newline> a'' =
     ''@@ -9007199254740992,1 +1,1 @@\<newline> a''"
  by code_simp

text \<open>
  Claim C2, as amended. Let every line in front of the first hunk header start with one of
  the four file-header prefixes, no line from the first hunk header on start with one, and
  every hunk header either not match the pattern of the filter or be exactly the canonical
  \<^verbatim>\<open>@@ -a,b +c,d @@\<close> with \<open>a\<close>, \<open>c\<close> and \<open>d\<close> in decimal notation and below \<open>2^53\<close>. Then
  the filter with no rules returns its input. The claim as stated fails on a header that
  carries text after the closing \<open>@@\<close>, in a text without any carriage return.
\<close>

theorem filter_no_rules_identity:
  assumes "split_nl diff = pre @ body"
    and "\<forall>l\<in>set pre. isFileHeader l"
    and "body = [] \<or> startsWith (hd body) ''@@''"
    and "\<forall>l\<in>set body. \<not> isFileHeader l"
    and "\<forall>l\<in>set body. startsWith l ''@@'' \<longrightarrow>
           headerMatch l = None \<or>
           (\<exists>a b c d. isNumber b \<and> 0 \<le> a \<and> a < 2 ^ 53 \<and> 0 \<le> c \<and> c < 2 ^ 53 \<and>
              0 \<le> d \<and> d < 2 ^ 53 \<and> l = canonicalHeader a b c d)"
  shows "createFilteredPatch [] diff = diff"
proof -
  have p: "\<forall>l\<in>set pre. \<not> startsWith l ''@@''"
    using assms(2) hunk_header_not_file_header by blast
  have "filterLines [] pre = filter isFileHeader pre"
    using foldl_filterStep_preamble [OF p, of filterInit "[]"]
    by (simp add: filterLines_def filterInit_def flushHunk_def)
  also have "\<dots> = pre" using assms(2) by simp
  finally have pre: "filterLines [] pre = pre" .
  have body: "filterLines [] body = body"
  proof (cases body)
    case Nil
    then show ?thesis by (simp add: filterLines_Nil)
  next
    case (Cons h r)
    with assms(3) have h: "startsWith h ''@@''" by simp
    let ?s0 = "\<lparr>filteredLines = [], currentHunk = [h], skippedLines = 0\<rparr>"
    have stable: "\<forall>l\<in>set body. startsWith l ''@@'' \<longrightarrow> processHunk [l] 0 = [l]"
      using assms(5) processHunk_stable by blast
    then have sh: "processHunk [h] 0 = [h]" using h Cons by simp
    have "filterLines [] (h # r) = flushHunk (foldl (filterStep []) ?s0 r)"
      using h by (simp add: filterLines_def filterStep_hunk_header flushHunk_init)
    also have "\<dots> = flushHunk ?s0 @ r"
      using sh stable assms(4) Cons by (intro foldl_filterStep_no_rules) simp_all
    finally show ?thesis using sh Cons by (simp add: flushHunk_def)
  qed
  have "filterLines [] (pre @ body) = filterLines [] pre @ filterLines [] body"
    using assms(3) by (rule filterLines_cut)
  then show ?thesis
    by (simp add: createFilteredPatch_def assms(1) pre body flip: assms(1)) (simp add: join_split_nl)
qed

theorem filter_no_rules_identity_witness:
  "createFilteredPatch []
     ''diff --git a/f b/f\<newline>index 1..2 100644\<newline>--- a/f\<newline>+++ b/f\<newline>@@ -1,2 +1,2 @@\<newline> a\<newline>-b\<newline>+console.log(1)'' =
   ''diff --git a/f b/f\<newline>index 1..2 100644\<newline>--- a/f\<newline>+++ b/f\<newline>@@ -1,2 +1,2 @@\<newline> a\<newline>-b\<newline>+console.log(1)''"
proof -
  let ?d = "''diff --git a/f b/f\<newline>index 1..2 100644\<newline>--- a/f\<newline>+++ b/f\<newline>@@ -1,2 +1,2 @@\<newline> a\<newline>-b\<newline>+console.log(1)''"
  let ?pre = "[''diff --git a/f b/f'', ''index 1..2 100644'', ''--- a/f'', ''+++ b/f'']"
  let ?body = "[''@@ -1,2 +1,2 @@'', '' a'', ''-b'', ''+console.log(1)'']"
  have 1: "split_nl ?d = ?pre @ ?body" by code_simp
  have 2: "\<forall>l\<in>set ?pre. isFileHeader l" by code_simp
  have 3: "?body = [] \<or> startsWith (hd ?body) ''@@''" by code_simp
  have 4: "\<forall>l\<in>set ?body. \<not> isFileHeader l" by code_simp
  have n: "isNumber ''2''" by code_simp
  have h: "''@@ -1,2 +1,2 @@'' = canonicalHeader 1 ''2'' 1 2" by code_simp
  have "isNumber ''2'' \<and> (0::int) \<le> 1 \<and> (1::int) < 2 ^ 53 \<and> (0::int) \<le> 1 \<and> (1::int) < 2 ^ 53 \<and>
        (0::int) \<le> 2 \<and> (2::int) < 2 ^ 53 \<and> ''@@ -1,2 +1,2 @@'' = canonicalHeader 1 ''2'' 1 2"
    using n h by simp
  then have ex: "\<exists>a b c d. isNumber b \<and> 0 \<le> a \<and> a < 2 ^ 53 \<and> 0 \<le> c \<and> c < 2 ^ 53 \<and>
              0 \<le> d \<and> d < 2 ^ 53 \<and> ''@@ -1,2 +1,2 @@'' = canonicalHeader a b c d"
    by blast
  have 5: "\<forall>l\<in>set ?body. startsWith l ''@@'' \<longrightarrow>
           headerMatch l = None \<or>
           (\<exists>a b c d. isNumber b \<and> 0 \<le> a \<and> a < 2 ^ 53 \<and> 0 \<le> c \<and> c < 2 ^ 53 \<and>
              0 \<le> d \<and> d < 2 ^ 53 \<and> l = canonicalHeader a b c d)"
    using ex by (simp add: startsWith_def)
  show ?thesis by (rule filter_no_rules_identity [OF 1 2 3 4 5])
qed

theorem no_rules_counterexample:
  "createFilteredPatch [] ''--- a/f\<newline>+++ b/f\<newline>@@ -1,2 +1,2 @@ function foo() {\<newline> a\<newline>-b\<newline>+c'' \<noteq>
     ''--- a/f\<newline>+++ b/f\<newline>@@ -1,2 +1,2 @@ function foo() {\<newline> a\<newline>-b\<newline>+c'' \<and>
   stripCR (createFilteredPatch [] ''--- a/f\<newline>+++ b/f\<newline>@@ -1,2 +1,2 @@ function foo() {\<newline> a\<newline>-b\<newline>+c'') \<noteq>
     stripCR ''--- a/f\<newline>+++ b/f\<newline>@@ -1,2 +1,2 @@ function foo() {\<newline> a\<newline>-b\<newline>+c''"
  by code_simp

text \<open>
  Claim C3. The two components do not recognise the same header lines: the pattern of the
  filter requires both counts, the pattern of \<open>parseDiff\<close> makes each optional. On the header
  \<^verbatim>\<open>@@ -1 +1,2 @@\<close>, which git writes for a one-line file, the filter finds no match and
  leaves the header as it is although it dropped an added line of the hunk, while
  \<open>parseDiff\<close> matches and starts numbering at 1.
\<close>

theorem header_patterns_diverge:
  "headerMatch ''@@ -1 +1,2 @@'' = None \<and>
   parseHeaderMatch ''@@ -1 +1,2 @@'' = Some ''1'' \<and>
   createFilteredPatch [rule_console]
     ''--- a/f\<newline>+++ b/f\<newline>@@ -1 +1,2 @@\<newline> a\<newline>+console.log(1)'' =
     ''--- a/f\<newline>+++ b/f\<newline>@@ -1 +1,2 @@\<newline> a'' \<and>
   parseLines (split_nl ''--- a/f\<newline>+++ b/f\<newline>@@ -1 +1,2 @@\<newline> a\<newline>+console.log(1)'') =
     [\<lparr>header = ''@@ -1 +1,2 @@'', lines =
        [\<lparr>lineType = Context, content = '' a'', lineNumber = Num 1\<rparr>,
         \<lparr>lineType = Added, content = ''+console.log(1)'', lineNumber = Num 2\<rparr>]\<rparr>]"
  by code_simp

text \<open>
  Claim C4. Count the added body lines of a diff: the lines after its first hunk header that
  start with \<open>+\<close> and not with \<open>+++ \<close>. The output of the filter has at most as many as its
  input, and as many exactly when no added body line of the input, without its prefix and
  trimmed, matches a rule. The bound also holds when such lines are counted in the whole
  text, in front of the first hunk header too.
\<close>

theorem added_lines_monotone:
  "length (addedBodyLines (split_nl (createFilteredPatch rules diff))) \<le>
     length (addedBodyLines (split_nl diff)) \<and>
   (length (addedBodyLines (split_nl (createFilteredPatch rules diff))) =
      length (addedBodyLines (split_nl diff)) \<longleftrightarrow>
    (\<forall>l\<in>set (addedBodyLines (split_nl diff)). \<not> shouldFilter rules l)) \<and>
   length (filter isAddedLine (split_nl (createFilteredPatch rules diff))) \<le>
     length (filter isAddedLine (split_nl diff))"
proof -
  have "length (filter isAddedLine (split_nl (createFilteredPatch rules diff))) \<le>
        length (addedBodyLines (split_nl diff))"
    unfolding added_createFilteredPatch addedBodyLines_createFilteredPatch by simp
  also have "\<dots> \<le> length (filter isAddedLine (split_nl diff))"
    by (rule length_addedBodyLines_le)
  finally show ?thesis
    unfolding addedBodyLines_createFilteredPatch by (simp add: length_filter_eq_iff)
qed

theorem added_lines_monotone_witness:
  "length (addedBodyLines (split_nl (createFilteredPatch [rule_console]
      ''--- a/f\<newline>+++ b/f\<newline>@@ -10,3 +10,4 @@\<newline> ctx1\<newline>+console.log(1)\<newline>+keep()\<newline> ctx2''))) <
   length (addedBodyLines (split_nl
      ''--- a/f\<newline>+++ b/f\<newline>@@ -10,3 +10,4 @@\<newline> ctx1\<newline>+console.log(1)\<newline>+keep()\<newline> ctx2''))"
proof -
  let ?d = "''--- a/f\<newline>+++ b/f\<newline>@@ -10,3 +10,4 @@\<newline> ctx1\<newline>+console.log(1)\<newline>+keep()\<newline> ctx2''"
  have "\<not> (\<forall>l\<in>set (addedBodyLines (split_nl ?d)). \<not> shouldFilter [rule_console] l)"
    by code_simp
  then show ?thesis
    using added_lines_monotone [of "[rule_console]" ?d] by linarith
qed

text \<open>
  Claim C5, as amended. In every hunk \<open>parseDiff\<close> returns, the entries are numbered by a
  counter that starts at the value taken from the header (the \<open>newStart\<close> of a header of the
  form \<^verbatim>\<open>@@ -a[,b] +c[,d] @@\<close>, and 0 for a header the pattern does not match), is
  incremented after each added or context entry and stays after each removed entry. So the
  first entry has that start, and a removed entry has the number of the entry that follows
  it. As long as the start plus the number of entries stays below \<open>2^53\<close>, an entry has the
  start plus the number of added and context entries in front of it, so an added or context
  entry is followed by an entry numbered one higher and has a smaller number than every
  later entry. The claim as stated fails for a hunk that starts at \<open>2^53\<close>, where the
  increment leaves the counter as it is.
\<close>

theorem line_numbering:
  assumes "h \<in> set (hunks (parseDiff diff path type))"
  shows "numberedFrom (hunkStart (header h)) (lines h) \<and>
         (\<forall>a oc c nc t. isNumber a \<longrightarrow> isOptCount oc \<longrightarrow> isNumber c \<longrightarrow> isOptCount nc \<longrightarrow>
            header h = ''@@ -'' @ a @ oc @ '' +'' @ c @ nc @ '' @@'' @ t \<longrightarrow>
            hunkStart (header h) = parseInt c) \<and>
         (lines h \<noteq> [] \<longrightarrow> lineNumber (hd (lines h)) = hunkStart (header h)) \<and>
         (\<forall>i. Suc i < length (lines h) \<longrightarrow>
            lineNumber (lines h ! Suc i) =
              (if lineType (lines h ! i) = Removed then lineNumber (lines h ! i)
               else increment (lineNumber (lines h ! i)))) \<and>
         (\<forall>n. hunkStart (header h) = Num n \<longrightarrow> 0 \<le> n \<longrightarrow>
            n + int (length (lines h)) < 2 ^ 53 \<longrightarrow>
            (\<forall>i. i < length (lines h) \<longrightarrow>
               lineNumber (lines h ! i) = Num (n + int (newSideCount (take i (lines h))))) \<and>
            (\<forall>i. Suc i < length (lines h) \<longrightarrow> lineType (lines h ! i) \<noteq> Removed \<longrightarrow>
               lineNumber (lines h ! Suc i) =
                 Num (n + int (newSideCount (take i (lines h))) + 1)) \<and>
            (\<forall>i j. i < j \<longrightarrow> j < length (lines h) \<longrightarrow> lineType (lines h ! i) \<noteq> Removed \<longrightarrow>
               numLess (lineNumber (lines h ! i)) (lineNumber (lines h ! j))))"
proof -
  let ?n = "hunkStart (header h)" and ?es = "lines h"
  have nf: "numberedFrom ?n ?es"
    using parseDiff_hunks [OF assms] by (rule parseLines_numbered)
  have start: "hunkStart (header h) = parseInt c"
    if "isNumber a" "isOptCount oc" "isNumber c" "isOptCount nc"
      "header h = ''@@ -'' @ a @ oc @ '' +'' @ c @ nc @ '' @@'' @ t" for a oc c nc t
    using hunkStart_header [OF that(1-4), of t] that(5) by simp
  have first: "?es \<noteq> [] \<longrightarrow> lineNumber (hd ?es) = ?n"
    using nf by (cases ?es) auto
  have suc: "counterAfter ?n (take (Suc i) ?es) =
             (if lineType (?es ! i) = Removed then counterAfter ?n (take i ?es)
              else increment (counterAfter ?n (take i ?es)))" if "i < length ?es" for i
    using that by (simp add: take_Suc_conv_app_nth counterAfter_snoc)
  have adj: "lineNumber (?es ! Suc i) =
             (if lineType (?es ! i) = Removed then lineNumber (?es ! i)
              else increment (lineNumber (?es ! i)))"
    if "Suc i < length ?es" for i
  proof -
    from that have i: "i < length ?es" by simp
    show ?thesis
      using numberedFrom_nth [OF nf that] numberedFrom_nth [OF nf i] suc [OF i] by simp
  qed
  have bounded:
    "(\<forall>i. i < length ?es \<longrightarrow> lineNumber (?es ! i) = Num (n + int (newSideCount (take i ?es)))) \<and>
     (\<forall>i. Suc i < length ?es \<longrightarrow> lineType (?es ! i) \<noteq> Removed \<longrightarrow>
        lineNumber (?es ! Suc i) = Num (n + int (newSideCount (take i ?es)) + 1)) \<and>
     (\<forall>i j. i < j \<longrightarrow> j < length ?es \<longrightarrow> lineType (?es ! i) \<noteq> Removed \<longrightarrow>
        numLess (lineNumber (?es ! i)) (lineNumber (?es ! j)))"
    if n: "?n = Num n" "0 \<le> n" "n + int (length ?es) < 2 ^ 53" for n
  proof -
    have num: "lineNumber (?es ! i) = Num (n + int (newSideCount (take i ?es)))"
      if "i < length ?es" for i
    proof -
      have "n + int (length (take i ?es)) < 2 ^ 53" using n(3) that by simp
      then have "counterAfter (Num n) (take i ?es) = Num (n + int (newSideCount (take i ?es)))"
        using n(2) by (intro counterAfter_exact)
      then show ?thesis using numberedFrom_nth [OF nf that] n(1) by simp
    qed
    have next1: "lineNumber (?es ! Suc i) = Num (n + int (newSideCount (take i ?es)) + 1)"
      if "Suc i < length ?es" "lineType (?es ! i) \<noteq> Removed" for i
    proof -
      from that have i: "i < length ?es" by simp
      have "newSideCount (take (Suc i) ?es) = newSideCount (take i ?es) + 1"
        using that(2) i by (simp add: take_Suc_conv_app_nth newSideCount_def)
      then show ?thesis using num [OF that(1)] by simp
    qed
    have mono: "numLess (lineNumber (?es ! i)) (lineNumber (?es ! j))"
      if "i < j" "j < length ?es" "lineType (?es ! i) \<noteq> Removed" for i j
    proof -
      from that have i: "i < length ?es" by simp
      have "newSideCount (take i ?es) < newSideCount (take j ?es)"
        using that by (intro newSideCount_take_less) simp_all
      then show ?thesis using num [OF i] num [OF that(2)] by simp
    qed
    show ?thesis using num next1 mono by blast
  qed
  show ?thesis using nf start first adj bounded by blast
qed

theorem line_numbering_witness:
  "numberedFrom (Num 3)
     [\<lparr>lineType = Context, content = '' a'', lineNumber = Num 3\<rparr>,
      \<lparr>lineType = Removed, content = ''-b'', lineNumber = Num 4\<rparr>,
      \<lparr>lineType = Added, content = ''+c'', lineNumber = Num 4\<rparr>,
      \<lparr>lineType = Added, content = ''+d'', lineNumber = Num 5\<rparr>]"
proof -
  let ?h = "\<lparr>header = ''@@ -3,2 +3,3 @@ f()'', lines =
     [\<lparr>lineType = Context, content = '' a'', lineNumber = Num 3\<rparr>,
      \<lparr>lineType = Removed, content = ''-b'', lineNumber = Num 4\<rparr>,
      \<lparr>lineType = Added, content = ''+c'', lineNumber = Num 4\<rparr>,
      \<lparr>lineType = Added, content = ''+d'', lineNumber = Num 5\<rparr>]\<rparr>"
  let ?d = "''diff --git a/f b/f\<newline>index 1..2 100644\<newline>--- a/f\<newline>+++ b/f\<newline>@@ -3,2 +3,3 @@ f()\<newline> a\<newline>-b\<newline>+c\<newline>+d''"
  have e: "hunks (parseDiff ?d ''/w/f'' 1) = [?h]" by code_simp
  then have m: "?h \<in> set (hunks (parseDiff ?d ''/w/f'' 1))" by simp
  have s: "hunkStart (header ?h) = Num 3" by code_simp
  from line_numbering [OF m] have "numberedFrom (hunkStart (header ?h)) (lines ?h)" by blast
  then show ?thesis unfolding s by simp
qed

theorem line_numbering_counterexample:
  "hunks (parseDiff ''@@ -1 +9007199254740992 @@\<newline>+a\<newline>+b\<newline> c'' ''/w/f'' 1) =
     [\<lparr>header = ''@@ -1 +9007199254740992 @@'', lines =
        [\<lparr>lineType = Added, content = ''+a'', lineNumber = Num 9007199254740992\<rparr>,
         \<lparr>lineType = Added, content = ''+b'', lineNumber = Num 9007199254740992\<rparr>,
         \<lparr>lineType = Context, content = '' c'', lineNumber = Num 9007199254740992\<rparr>]\<rparr>]"
  by code_simp

text \<open>
  Claim C6. For a segment that contains \<open>Binary files\<close> or \<open>GIT binary patch\<close>, \<open>parseDiff\<close>
  returns no hunks and \<open>isBinary = true\<close>, whatever lines the segment has.
\<close>

theorem binary_segment:
  assumes "seg = pre @ ''Binary files'' @ post \<or> seg = pre @ ''GIT binary patch'' @ post"
  shows "parseDiff seg path type =
         \<lparr>filePath = path, fileType = type, hunks = [], isBinary = Some True\<rparr>"
proof -
  from assms have "includesSub seg ''Binary files'' \<or> includesSub seg ''GIT binary patch''"
    unfolding includesSub_iff by blast
  then show ?thesis by (simp add: parseDiff_def)
qed

theorem binary_segment_witness:
  "parseSegment ''/w/logo.png''
     ''diff --git a/logo.png b/logo.png\<newline>index 1..2 100644\<newline>Binary files a/logo.png and b/logo.png differ\<newline>@@ -1 +1 @@\<newline>+x'' =
   \<lparr>filePath = ''/w/logo.png'', fileType = 1, hunks = [], isBinary = Some True\<rparr>"
proof -
  let ?pre = "''diff --git a/logo.png b/logo.png\<newline>index 1..2 100644\<newline>''"
  let ?post = "'' a/logo.png and b/logo.png differ\<newline>@@ -1 +1 @@\<newline>+x''"
  let ?seg = "''diff --git a/logo.png b/logo.png\<newline>index 1..2 100644\<newline>Binary files a/logo.png and b/logo.png differ\<newline>@@ -1 +1 @@\<newline>+x''"
  have h: "?seg = ?pre @ ''Binary files'' @ ?post \<or> ?seg = ?pre @ ''GIT binary patch'' @ ?post"
    by simp
  have t: "getFileChangeType ?seg = 1" by code_simp
  show ?thesis
    unfolding parseSegment_def t by (rule binary_segment [OF h])
qed

text \<open>
  Claim C7. The change type of a segment is 7 (new file) exactly when the segment contains
  \<open>new file mode\<close>, 6 (deleted) when it does not but contains \<open>deleted file mode\<close>, and
  1 (modified) otherwise.
\<close>

theorem change_type:
  "fileType (parseSegment path seg) =
     (if \<exists>pre post. seg = pre @ ''new file mode'' @ post then 7
      else if \<exists>pre post. seg = pre @ ''deleted file mode'' @ post then 6
      else 1)"
  by (simp add: parseSegment_def parseDiff_def getFileChangeType_def includesSub_iff)

theorem change_type_witness:
  "fileType (parseSegment ''/w/f'' ''diff --git a/f b/f\<newline>deleted file mode 100644\<newline>index 1..0'') = 6"
proof -
  let ?seg = "''diff --git a/f b/f\<newline>deleted file mode 100644\<newline>index 1..0''"
  have a: "\<not> (\<exists>pre post. ?seg = pre @ ''new file mode'' @ post)"
    unfolding includesSub_iff [symmetric] by code_simp
  have b: "\<exists>pre post. ?seg = pre @ ''deleted file mode'' @ post"
    unfolding includesSub_iff [symmetric] by code_simp
  show ?thesis using change_type [of "''/w/f''" ?seg] a b by (simp only: if_False if_True)
qed



text \<open>
  Claim C9, as amended. When no line of the input starts with \<open>@@\<close>, the output of the filter
  consists of the input lines that start with one of the four file-header prefixes, in their
  order; every other line is dropped. The claim as stated (every line is passed through)
  fails on a line such as \<open>new file mode 100644\<close>.
\<close>

theorem filter_without_hunks:
  assumes "\<forall>l\<in>set (split_nl diff). \<not> startsWith l ''@@''"
  shows "createFilteredPatch rules diff = join_nl (filter isFileHeader (split_nl diff))"
proof -
  have "foldl (filterStep rules) filterInit (split_nl diff) =
        filterInit\<lparr>filteredLines := filteredLines filterInit @ filter isFileHeader (split_nl diff)\<rparr>"
    using assms by (intro foldl_filterStep_preamble) (simp_all add: filterInit_def)
  then show ?thesis
    by (simp add: createFilteredPatch_def filterLines_def flushHunk_def filterInit_def)
qed

theorem filter_without_hunks_witness:
  "createFilteredPatch [rule_console]
     ''diff --git a/f b/f\<newline>old mode 100644\<newline>new mode 100755\<newline>index 000..111'' =
   ''diff --git a/f b/f\<newline>index 000..111''"
proof -
  let ?d = "''diff --git a/f b/f\<newline>old mode 100644\<newline>new mode 100755\<newline>index 000..111''"
  have h: "\<forall>l\<in>set (split_nl ?d). \<not> startsWith l ''@@''" by code_simp
  have r: "join_nl (filter isFileHeader (split_nl ?d)) = ''diff --git a/f b/f\<newline>index 000..111''"
    by code_simp
  show ?thesis by (simp only: filter_without_hunks [OF h] r)
qed

theorem passthrough_counterexample:
  "\<not> includesSub ''diff --git a/f b/f\<newline>new file mode 100644\<newline>index 000..111'' ''@@'' \<and>
   createFilteredPatch [rule_console] ''diff --git a/f b/f\<newline>new file mode 100644\<newline>index 000..111''
     \<noteq> ''diff --git a/f b/f\<newline>new file mode 100644\<newline>index 000..111'' \<and>
   ''new file mode 100644'' \<notin> set (split_nl (createFilteredPatch [rule_console]
      ''diff --git a/f b/f\<newline>new file mode 100644\<newline>index 000..111''))"
  by code_simp

text \<open>
  Claim C10, as amended. For a hunk (of fewer than \<open>2^53\<close> lines) whose header line
  matches the pattern of the filter, the header the filter emits is \<^verbatim>\<open>@@ -a,b +c,d' @@\<close> and ends at the closing \<open>@@\<close>, also
  when no added line of the hunk was dropped. Its numbers are printed as a template
  literal prints them: in decimal notation when they are below \<open>2^53\<close> (then \<open>d'\<close> is \<open>d\<close>
  minus the number of dropped lines). When the line is \<^verbatim>\<open>@@ -a,b +c,d @@\<close> followed by any
  text, the groups are those four, so the text after the closing \<open>@@\<close> is gone from the
  output. The claim as stated fails for a count of \<open>10^21\<close>, which is printed with an
  exponent.
\<close>

theorem header_trailing_text_removed:
  assumes "startsWith h ''@@''" and "headerMatch h = Some (a, b, c, d)"
    and "\<forall>l\<in>set body. \<not> startsWith l ''@@''" and "int (length body) < 2 ^ 53"
    and "rest = [] \<or> startsWith (hd rest) ''@@''"
  shows "filterLines rules (pre @ h # body @ rest) =
         filterLines rules pre @ filter isFileHeader body @
         (''@@ -'' @ numToString (parseInt a) @ '','' @ b @ '' +'' @ numToString (parseInt c) @ '','' @
          numToString (minusCount (parseInt d) (length (droppedLines rules body))) @ '' @@'') #
         keptLines rules body @ filterLines rules rest \<and>
         (digitsValue a < 2 ^ 53 \<longrightarrow> numToString (parseInt a) = decimalNat (digitsValue a)) \<and>
         (digitsValue c < 2 ^ 53 \<longrightarrow> numToString (parseInt c) = decimalNat (digitsValue c)) \<and>
         (digitsValue d < 2 ^ 53 \<longrightarrow>
            numToString (minusCount (parseInt d) (length (droppedLines rules body))) =
            decimalInt (digitsValue d - int (length (droppedLines rules body)))) \<and>
         (\<forall>a' b' c' d' trailing.
            isNumber a' \<longrightarrow> isNumber b' \<longrightarrow> isNumber c' \<longrightarrow> isNumber d' \<longrightarrow>
            h = ''@@ -'' @ a' @ '','' @ b' @ '' +'' @ c' @ '','' @ d' @ '' @@'' @ trailing \<longrightarrow>
            a = a' \<and> b = b' \<and> c = c' \<and> d = d')"
proof -
  let ?k = "length (droppedLines rules body)"
  have "processHunk (h # keptLines rules body) ?k =
      hunkHeader (parseInt a) b (parseInt c) (minusCount (parseInt d) ?k) # keptLines rules body"
    using assms(2) by (rule processHunk_matched)
  then have out: "filterLines rules (pre @ h # body @ rest) =
         filterLines rules pre @ filter isFileHeader body @
         (''@@ -'' @ numToString (parseInt a) @ '','' @ b @ '' +'' @ numToString (parseInt c) @ '','' @
          numToString (minusCount (parseInt d) ?k) @ '' @@'') #
         keptLines rules body @ filterLines rules rest"
    using filterLines_hunk [OF assms(1,3,5), of rules pre] by (simp add: hunkHeader_def)
  have "?k \<le> length body"
    unfolding droppedLines_def by (rule length_filter_le)
  then have k: "int ?k < 2 ^ 53"
    using assms(4) by linarith
  from assms(2) have n: "isNumber a" "isNumber c" "isNumber d"
    by (auto dest: headerMatch_numbers)
  have nn: "0 \<le> digitsValue a" "0 \<le> digitsValue c" "0 \<le> digitsValue d"
    using n by (simp_all add: isNumber_def digitsValue_nonneg)
  have pa: "digitsValue a < 2 ^ 53 \<longrightarrow> numToString (parseInt a) = decimalNat (digitsValue a)"
    using n(1) nn(1) by (simp add: parseInt_exact numToString_exact decimalInt_def)
  have pc: "digitsValue c < 2 ^ 53 \<longrightarrow> numToString (parseInt c) = decimalNat (digitsValue c)"
    using n(2) nn(2) by (simp add: parseInt_exact numToString_exact decimalInt_def)
  have pd: "digitsValue d < 2 ^ 53 \<longrightarrow>
            numToString (minusCount (parseInt d) ?k) = decimalInt (digitsValue d - int ?k)"
    using n(3) nn(3) k by (simp add: parseInt_exact minusCount_exact numToString_exact)
  have groups: "a = a' \<and> b = b' \<and> c = c' \<and> d = d'"
    if "isNumber a'" "isNumber b'" "isNumber c'" "isNumber d'"
      "h = ''@@ -'' @ a' @ '','' @ b' @ '' +'' @ c' @ '','' @ d' @ '' @@'' @ trailing"
    for a' b' c' d' trailing
    using headerMatch_starts [OF that(1-4), of trailing a b c d] assms(2) that(5) by simp
  show ?thesis using out pa pc pd groups by blast
qed

theorem header_trailing_text_removed_witness:
  "createFilteredPatch [rule_console]
     ''--- a/f\<newline>+++ b/f\<newline>@@ -1,2 +1,2 @@ function foo() {\<newline> a\<newline>-b\<newline>+c'' =
   ''--- a/f\<newline>+++ b/f\<newline>@@ -1,2 +1,2 @@\<newline> a\<newline>-b\<newline>+c''"
proof -
  let ?pre = "[''--- a/f'', ''+++ b/f'']"
  let ?h = "''@@ -1,2 +1,2 @@ function foo() {''"
  let ?body = "['' a'', ''-b'', ''+c'']"
  have 1: "startsWith ?h ''@@''" by code_simp
  have 2: "headerMatch ?h = Some (''1'', ''2'', ''1'', ''2'')" by code_simp
  have 3: "\<forall>l\<in>set ?body. \<not> startsWith l ''@@''" by code_simp
  have 4: "int (length ?body) < 2 ^ 53" by simp
  have 5: "([]::string list) = [] \<or> startsWith (hd []) ''@@''" by simp
  have s: "split_nl ''--- a/f\<newline>+++ b/f\<newline>@@ -1,2 +1,2 @@ function foo() {\<newline> a\<newline>-b\<newline>+c'' =
     ?pre @ ?h # ?body @ []"
    by code_simp
  have r: "join_nl (filterLines [rule_console] ?pre @ filter isFileHeader ?body @
         (''@@ -'' @ numToString (parseInt ''1'') @ '','' @ ''2'' @ '' +'' @ numToString (parseInt ''1'') @ '','' @
          numToString (minusCount (parseInt ''2'') (length (droppedLines [rule_console] ?body))) @ '' @@'') #
         keptLines [rule_console] ?body @ filterLines [rule_console] []) =
     ''--- a/f\<newline>+++ b/f\<newline>@@ -1,2 +1,2 @@\<newline> a\<newline>-b\<newline>+c''"
    by code_simp
  from header_trailing_text_removed [OF 1 2 3 4 5, of "[rule_console]" ?pre]
  have "filterLines [rule_console] (?pre @ ?h # ?body @ []) =
         filterLines [rule_console] ?pre @ filter isFileHeader ?body @
         (''@@ -'' @ numToString (parseInt ''1'') @ '','' @ ''2'' @ '' +'' @ numToString (parseInt ''1'') @ '','' @
          numToString (minusCount (parseInt ''2'') (length (droppedLines [rule_console] ?body))) @ '' @@'') #
         keptLines [rule_console] ?body @ filterLines [rule_console] []"
    by (rule conjunct1)
  then show ?thesis
    unfolding createFilteredPatch_def s by (simp only: r)
qed

theorem exponent_counterexample:
  "headerMatch ''@@ -1,1 +1,1000000000000000000000 @@'' =
     Some (''1'', ''1'', ''1'', ''1000000000000000000000'') \<and>
   createFilteredPatch [rule_console] ''@@ -1,1 +1,1000000000000000000000 @@\<newline> a'' =
     ''@@ -1,1 +1,1e+21 @@\<newline> a'' \<and>
   headerMatch ''@@ -1,1 +1,1e+21 @@'' = None"
  by code_simp

end
